theory Spec2Isabelle
  imports Main "HOL-Library.Multiset" "HOL-Library.Product_Lexorder" "HOL-Library.Word"
begin

section \<open>Data model\<close>

text \<open>
  The builder is the class template \<^verbatim>\<open>BuilderBase<NodeID_, DestID_, WeightT_, invert>\<close> of
  \<^verbatim>\<open>builder.h\<close>. The development covers the unweighted instantiation, the template's
  default \<^verbatim>\<open>DestID_ = NodeID_\<close>, for which \<^verbatim>\<open>needs_weights_\<close> is false and
  \<^verbatim>\<open>InsertWeights\<close> is never called. Node identifiers, degrees and offsets are signed
  machine integers in the source; they are modelled as unbounded integers, so the
  theorems speak about runs in which no counter overflows.

  An array (\<^verbatim>\<open>pvector\<close>, \<^verbatim>\<open>new T[n]\<close>) is a list. A \<^verbatim>\<open>pvector\<close> allocated without a fill
  value holds indeterminate cells; the model fills them with 0, and every loop below
  writes each cell before it is read. Reading or writing outside an array is undefined
  behaviour in the source; the theorems below are stated for inputs that stay inside.

  A \<^verbatim>\<open>#pragma omp parallel for\<close> loop is modelled by its iterations in sequence, in the
  order of the iteration space.
\<close>

type_synonym NodeID = int
type_synonym SGOffset = int

text \<open>\<^verbatim>\<open>EdgePair<NodeID_, DestID_>\<close>: the pair \<open>(u, v)\<close>.\<close>

type_synonym Edge = "NodeID \<times> NodeID"
type_synonym EdgeList = "Edge list"

text \<open>
  A pointer variable of the source is either never assigned, the null pointer, or the
  address of an array; the array stands for the address.
\<close>

datatype 'a ptr = Unassigned | Nullptr | Ptr 'a

text \<open>
  Modelled from the spec: the class \<^verbatim>\<open>CSRGraph\<close> (\<^verbatim>\<open>graph.h\<close> is not among the sources).
  A graph holds its node count, a directedness flag, an (IndexArray, NeighborArray) pair
  for outgoing adjacency and, only for directed graphs, a second pair for incoming
  adjacency. The index array holds \<open>num_nodes + 1\<close> slice-start markers into the neighbor
  array; a marker is modelled by its offset from the start of the neighbor array, so
  node \<open>n\<close> owns the cells \<open>[index[n], index[n+1])\<close>.
\<close>

record CSRGraph =
  directed :: bool
  num_nodes :: int
  out_index :: "SGOffset list"
  out_neighs :: "NodeID list"
  in_index :: "SGOffset list ptr"
  in_neighs :: "NodeID list ptr"

text \<open>
  Modelled from the spec: the three-argument constructor of \<^verbatim>\<open>CSRGraph\<close>, which builds an
  undirected graph that holds the outgoing pair only.
\<close>

definition CSRGraph_undirected :: "int \<Rightarrow> SGOffset list \<Rightarrow> NodeID list \<Rightarrow> CSRGraph" where
  "CSRGraph_undirected n index neighs =
     \<lparr>directed = False, num_nodes = n, out_index = index, out_neighs = neighs,
      in_index = Nullptr, in_neighs = Nullptr\<rparr>"

text \<open>
  Modelled from the spec: the five-argument constructor of \<^verbatim>\<open>CSRGraph\<close>, which builds a
  directed graph from an outgoing pair and the two pointers of an incoming pair.
\<close>

definition CSRGraph_directed ::
  "int \<Rightarrow> SGOffset list \<Rightarrow> NodeID list \<Rightarrow> SGOffset list ptr \<Rightarrow> NodeID list ptr \<Rightarrow> CSRGraph" where
  "CSRGraph_directed n index neighs inv_index inv_neighs =
     \<lparr>directed = True, num_nodes = n, out_index = index, out_neighs = neighs,
      in_index = inv_index, in_neighs = inv_neighs\<rparr>"

text \<open>The cells \<open>[lo, hi)\<close> of an array, and an array with a list written from cell \<open>lo\<close> on.\<close>

definition cells :: "'a list \<Rightarrow> int \<Rightarrow> int \<Rightarrow> 'a list" where
  "cells arr lo hi = take (nat hi - nat lo) (drop (nat lo) arr)"

definition overwrite :: "'a list \<Rightarrow> int \<Rightarrow> 'a list \<Rightarrow> 'a list" where
  "overwrite arr lo xs = take (nat lo) arr @ xs @ drop (nat lo + length xs) arr"

text \<open>
  Modelled from the spec: \<^verbatim>\<open>CSRGraph::GenIndex\<close> (\<^verbatim>\<open>graph.h\<close> is not among the sources):
  \<open>index[i]\<close> is the address of slice \<open>i\<close>'s start, derived from the offsets as they are
  when it is called. With markers as offsets it is a copy of the offset array.
\<close>

definition GenIndex :: "SGOffset list \<Rightarrow> NodeID list \<Rightarrow> SGOffset list" where
  "GenIndex offsets neighs = offsets"

text \<open>
  Modelled from the spec: the neighborhood accessors \<^verbatim>\<open>out_neigh\<close>, \<^verbatim>\<open>in_neigh\<close> and
  \<^verbatim>\<open>out_degree\<close> of \<^verbatim>\<open>CSRGraph\<close> (\<^verbatim>\<open>graph.h\<close> is not among the sources): node \<open>n\<close>'s
  slice of a pair, and its length.
\<close>

definition neigh :: "SGOffset list \<Rightarrow> NodeID list \<Rightarrow> nat \<Rightarrow> NodeID list" where
  "neigh index neighs n = cells neighs (index ! n) (index ! (n + 1))"

definition out_neigh :: "CSRGraph \<Rightarrow> nat \<Rightarrow> NodeID list" where
  "out_neigh g n = neigh (out_index g) (out_neighs g) n"

definition out_degree :: "CSRGraph \<Rightarrow> nat \<Rightarrow> int" where
  "out_degree g n = out_index g ! (n + 1) - out_index g ! n"

text \<open>
  Modelled from the spec: \<^verbatim>\<open>fetch_and_add\<close> (\<^verbatim>\<open>platform_atomics.h\<close> is not among the
  sources): a single atomic step that returns the cell's old value and adds to the cell.
\<close>

definition fetch_and_add :: "int list \<Rightarrow> nat \<Rightarrow> int \<Rightarrow> int \<times> int list" where
  "fetch_and_add xs i inc = (xs ! i, xs[i := xs ! i + inc])"

text \<open>
  The algorithms of the C++ standard library on a range \<open>[lo, hi)\<close> of an array.
  \<^verbatim>\<open>std::sort\<close> leaves the range sorted; for integers and for pairs of integers equal
  elements are identical, so the sorted arrangement is unique. \<^verbatim>\<open>std::unique\<close> and
  \<^verbatim>\<open>std::remove\<close> move the kept elements to the front of the range and return the new
  end; the cells from the new end on are left as an implementation that assigns forward
  leaves them, and nothing below reads them.
\<close>

definition std_sort :: "NodeID list \<Rightarrow> int \<Rightarrow> int \<Rightarrow> NodeID list" where
  "std_sort arr lo hi = overwrite arr lo (sort (cells arr lo hi))"

definition std_unique :: "NodeID list \<Rightarrow> int \<Rightarrow> int \<Rightarrow> NodeID list \<times> int" where
  "std_unique arr lo hi =
     (let kept = remdups_adj (cells arr lo hi)
      in (overwrite arr lo kept, lo + int (length kept)))"

definition std_remove :: "NodeID list \<Rightarrow> int \<Rightarrow> int \<Rightarrow> NodeID \<Rightarrow> NodeID list \<times> int" where
  "std_remove arr lo hi x =
     (let kept = removeAll x (cells arr lo hi)
      in (overwrite arr lo kept, lo + int (length kept)))"

definition std_copy :: "NodeID list \<Rightarrow> int \<Rightarrow> int \<Rightarrow> NodeID list \<Rightarrow> int \<Rightarrow> NodeID list" where
  "std_copy src lo hi dst d_lo = overwrite dst d_lo (cells src lo hi)"


section \<open>Prefix sums\<close>

text \<open>\<^verbatim>\<open>BuilderBase::PrefixSum\<close> (builder.h, lines 71-81).\<close>

definition PrefixSum :: "NodeID list \<Rightarrow> SGOffset list" where
  "PrefixSum degrees =
     (let sums0 = replicate (length degrees + 1) 0;
          loop = fold (\<lambda>n (sums, total). (sums[n := total], total + degrees ! n))
                   [0..<length degrees] (sums0, 0)
      in (fst loop)[length degrees := snd loop])"

text \<open>
  \<^verbatim>\<open>BuilderBase::ParallelPrefixSum\<close> (builder.h, lines 83-115): the per-block sums, their
  serial prefix, and the per-block scan that starts from the block's base.
\<close>

definition block_size :: nat where
  "block_size = 2 ^ 20"

definition ParallelPrefixSum :: "NodeID list \<Rightarrow> SGOffset list" where
  "ParallelPrefixSum degrees =
     (let num_blocks = (length degrees + block_size - 1) div block_size;
          local_sums =
             fold (\<lambda>block local_sums.
                     let block_end = min ((block + 1) * block_size) (length degrees);
                         lsum = fold (\<lambda>i lsum. lsum + degrees ! i)
                                  [block * block_size..<block_end] 0
                     in local_sums[block := lsum])
               [0..<num_blocks] (replicate num_blocks 0);
          loop =
             fold (\<lambda>block (bulk_prefix, total).
                     (bulk_prefix[block := total], total + local_sums ! block))
               [0..<num_blocks] (replicate (num_blocks + 1) 0, 0);
          bulk_prefix = (fst loop)[num_blocks := snd loop];
          prefix =
             fold (\<lambda>block prefix.
                     let block_end = min ((block + 1) * block_size) (length degrees)
                     in fst (fold (\<lambda>i (prefix, local_total).
                                     (prefix[i := local_total], local_total + degrees ! i))
                               [block * block_size..<block_end]
                               (prefix, bulk_prefix ! block)))
               [0..<num_blocks] (replicate (length degrees + 1) 0)
      in prefix[length degrees := bulk_prefix ! num_blocks])"

text \<open>The sum of block \<open>k\<close> of an array cut into blocks of \<open>bs\<close> cells.\<close>

definition block_sum :: "nat \<Rightarrow> int list \<Rightarrow> nat \<Rightarrow> int" where
  "block_sum bs d k = sum ((!) d) {k * bs..<min ((k + 1) * bs) (length d)}"


section \<open>Building the CSR arrays from an edge list\<close>

text \<open>
  The fields of \<^verbatim>\<open>BuilderBase\<close> that the algorithms read: \<^verbatim>\<open>symmetrize_\<close>, \<^verbatim>\<open>num_nodes_\<close>
  (\<open>-1\<close> until it is known) and the template parameter \<^verbatim>\<open>invert\<close>.
\<close>

record BuilderBase =
  symmetrize :: bool
  num_nodes_B :: int
  invert :: bool

text \<open>\<^verbatim>\<open>BuilderBase::GetSource\<close> for an unweighted edge (builder.h, lines 39-41).\<close>

definition GetSource :: "Edge \<Rightarrow> NodeID" where
  "GetSource e = fst e"

text \<open>\<^verbatim>\<open>BuilderBase::FindMaxNodeID\<close> (builder.h, lines 47-56).\<close>

definition FindMaxNodeID :: "EdgeList \<Rightarrow> NodeID" where
  "FindMaxNodeID el = fold (\<lambda>e max_seen. max (max max_seen (fst e)) (snd e)) el 0"

text \<open>\<^verbatim>\<open>BuilderBase::CountDegrees\<close> (builder.h, lines 58-69).\<close>

definition CountDegrees :: "BuilderBase \<Rightarrow> EdgeList \<Rightarrow> bool \<Rightarrow> NodeID list" where
  "CountDegrees b el transpose' =
     fold (\<lambda>e degrees.
             let degrees = (if symmetrize b \<or> (\<not> symmetrize b \<and> \<not> transpose')
                            then snd (fetch_and_add degrees (nat (fst e)) 1) else degrees);
                 degrees = (if symmetrize b \<or> (\<not> symmetrize b \<and> transpose')
                            then snd (fetch_and_add degrees (nat (snd e)) 1) else degrees)
             in degrees)
       el (replicate (nat (num_nodes_B b)) 0)"

text \<open>
  The statement \<^verbatim>\<open>neighs[fetch_and_add(offsets[n], 1)] = x\<close> of \<^verbatim>\<open>MakeCSR\<close> (builder.h,
  lines 174 and 176): the cursor of node \<open>n\<close> gives the slot and advances, and \<open>x\<close> is
  stored in the slot. The statement \<^verbatim>\<open>neighs[offsets[n]++] = x\<close> of \<^verbatim>\<open>RelabelByDegree\<close>
  (builder.h, line 251) does the same.
\<close>

definition place ::
  "SGOffset list \<times> NodeID list \<Rightarrow> NodeID \<Rightarrow> NodeID \<Rightarrow> SGOffset list \<times> NodeID list" where
  "place st n x =
     (let (slot, offsets) = fetch_and_add (fst st) (nat n) 1
      in (offsets, (snd st)[nat slot := x]))"

text \<open>The body of the scatter loop of \<^verbatim>\<open>MakeCSR\<close> for one edge (builder.h, lines 172-177).\<close>

definition scatter ::
  "BuilderBase \<Rightarrow> bool \<Rightarrow> Edge \<Rightarrow> SGOffset list \<times> NodeID list \<Rightarrow> SGOffset list \<times> NodeID list"
  where
  "scatter b transpose' e st =
     (let st = (if symmetrize b \<or> (\<not> symmetrize b \<and> \<not> transpose')
                then place st (fst e) (snd e) else st);
          st = (if symmetrize b \<or> (\<not> symmetrize b \<and> transpose')
                then place st (snd e) (GetSource e) else st)
      in st)"

text \<open>
  \<^verbatim>\<open>BuilderBase::MakeCSR\<close> (builder.h, lines 164-179). The index is generated from the
  offsets before the loop turns them into cursors.
\<close>

definition MakeCSR :: "BuilderBase \<Rightarrow> EdgeList \<Rightarrow> bool \<Rightarrow> SGOffset list \<times> NodeID list" where
  "MakeCSR b el transpose' =
     (let degrees = CountDegrees b el transpose';
          offsets = ParallelPrefixSum degrees;
          neighs = replicate (nat (offsets ! nat (num_nodes_B b))) 0;
          index = GenIndex offsets neighs;
          (offsets, neighs) = fold (scatter b transpose') el (offsets, neighs)
      in (index, neighs))"

text \<open>
  The placements of the scatter loop in the order in which the loop makes them: the node
  whose cursor is fetched and the value stored. \<open>slots_of\<close> replays the cursor fetches of
  a list of placements and records the slot each one receives.
\<close>

definition placements :: "BuilderBase \<Rightarrow> bool \<Rightarrow> Edge \<Rightarrow> (NodeID \<times> NodeID) list" where
  "placements b transpose' e =
     (if symmetrize b \<or> (\<not> symmetrize b \<and> \<not> transpose') then [(fst e, snd e)] else []) @
     (if symmetrize b \<or> (\<not> symmetrize b \<and> transpose') then [(snd e, GetSource e)] else [])"

fun slots_of :: "SGOffset list \<Rightarrow> (NodeID \<times> NodeID) list \<Rightarrow> SGOffset list" where
  "slots_of offsets [] = []"
| "slots_of offsets (p # ps) =
     (let (slot, offsets) = fetch_and_add offsets (nat (fst p)) 1
      in slot # slots_of offsets ps)"

text \<open>The values placed for node \<open>n\<close>, in the order of the placements.\<close>

definition bucket :: "nat \<Rightarrow> (NodeID \<times> NodeID) list \<Rightarrow> NodeID list" where
  "bucket n ps = map snd (filter (\<lambda>p. fst p = int n) ps)"

definition MakeCSR_slots :: "BuilderBase \<Rightarrow> EdgeList \<Rightarrow> bool \<Rightarrow> SGOffset list" where
  "MakeCSR_slots b el transpose' =
     slots_of (ParallelPrefixSum (CountDegrees b el transpose'))
       (concat (map (placements b transpose') el))"

text \<open>
  \<^verbatim>\<open>MakeCSR\<close> with the placements of its scatter loop taking effect in a given order.
  In the parallel loop the atomic cursor fetches happen one after the other in some
  order, and each placement stores into the slot its own fetch returned; a run of the
  loop is thus described by the order of the fetches, a rearrangement of the placements.
\<close>

definition MakeCSR_in_order ::
  "BuilderBase \<Rightarrow> EdgeList \<Rightarrow> bool \<Rightarrow> (NodeID \<times> NodeID) list \<Rightarrow> SGOffset list \<times> NodeID list"
  where
  "MakeCSR_in_order b el transpose' ps =
     (let degrees = CountDegrees b el transpose';
          offsets = ParallelPrefixSum degrees;
          neighs = replicate (nat (offsets ! nat (num_nodes_B b))) 0;
          index = GenIndex offsets neighs;
          (offsets, neighs) = fold (\<lambda>p st. place st (fst p) (snd p)) ps (offsets, neighs)
      in (index, neighs))"

text \<open>
  \<^verbatim>\<open>BuilderBase::MakeGraphFromEL\<close> (builder.h, lines 181-200). The builder is returned
  with the graph, since \<^verbatim>\<open>num_nodes_\<close> is assigned when it was \<open>-1\<close>. The timer and the
  printed build time are left out.
\<close>

definition MakeGraphFromEL :: "BuilderBase \<Rightarrow> EdgeList \<Rightarrow> BuilderBase \<times> CSRGraph" where
  "MakeGraphFromEL b el =
     (let b = (if num_nodes_B b = - 1 then b\<lparr>num_nodes_B := FindMaxNodeID el + 1\<rparr> else b);
          (index, neighs) = MakeCSR b el False;
          (inv_index, inv_neighs) =
             (if \<not> symmetrize b \<and> invert b
              then (let (ix, ns) = MakeCSR b el True in (Ptr ix, Ptr ns))
              else (Nullptr, Nullptr))
      in (b, if symmetrize b
             then CSRGraph_undirected (num_nodes_B b) index neighs
             else CSRGraph_directed (num_nodes_B b) index neighs inv_index inv_neighs))"

text \<open>An edge list whose endpoints are node identifiers of a builder that knows its size.\<close>

definition valid_el :: "BuilderBase \<Rightarrow> EdgeList \<Rightarrow> bool" where
  "valid_el b el \<longleftrightarrow>
     0 \<le> num_nodes_B b \<and>
     (\<forall>e \<in> set el. 0 \<le> fst e \<and> fst e < num_nodes_B b \<and> 0 \<le> snd e \<and> snd e < num_nodes_B b)"


section \<open>Squish\<close>

text \<open>
  The pair that \<^verbatim>\<open>SquishCSR\<close> works on: the incoming pair when transposing, the outgoing
  pair otherwise. Taking the neighborhood of a pair whose pointers are null or were
  never assigned is undefined behaviour; the model returns no result for it.
\<close>

definition side :: "CSRGraph \<Rightarrow> bool \<Rightarrow> (SGOffset list \<times> NodeID list) option" where
  "side g transpose' =
     (if transpose'
      then (case (in_index g, in_neighs g) of
              (Ptr index, Ptr neighs) \<Rightarrow> Some (index, neighs)
            | _ \<Rightarrow> None)
      else Some (out_index g, out_neighs g))"

definition store_side :: "CSRGraph \<Rightarrow> bool \<Rightarrow> NodeID list \<Rightarrow> CSRGraph" where
  "store_side g transpose' neighs =
     (if transpose' then g\<lparr>in_neighs := Ptr neighs\<rparr> else g\<lparr>out_neighs := neighs\<rparr>)"

text \<open>
  The body of the first loop of \<^verbatim>\<open>SquishCSR\<close> for node \<open>n\<close> (builder.h, lines 123-133):
  the slice is sorted, made unique and freed of \<open>n\<close> in place, and the kept length is
  stored in \<open>diffs[n]\<close>.
\<close>

definition clean ::
  "SGOffset list \<Rightarrow> nat \<Rightarrow> NodeID list \<times> NodeID list \<Rightarrow> NodeID list \<times> NodeID list" where
  "clean index n st =
     (let n_start = index ! n;
          n_end = index ! (n + 1);
          arr = std_sort (fst st) n_start n_end;
          (arr, new_end) = std_unique arr n_start n_end;
          (arr, new_end) = std_remove arr n_start new_end (int n)
      in (arr, (snd st)[n := new_end - n_start]))"

text \<open>
  \<^verbatim>\<open>BuilderBase::SquishCSR\<close> (builder.h, lines 117-146). The graph is passed by reference
  and its slices are rearranged in place, so the graph is returned with the new pair.
\<close>

definition SquishCSR ::
  "CSRGraph \<Rightarrow> bool \<Rightarrow> (CSRGraph \<times> SGOffset list \<times> NodeID list) option" where
  "SquishCSR g transpose' =
     (case side g transpose' of
        None \<Rightarrow> None
      | Some (index, neighs) \<Rightarrow>
          let N = nat (num_nodes g);
              (neighs, diffs) = fold (clean index) [0..<N] (neighs, replicate N 0);
              sq_offsets = ParallelPrefixSum diffs;
              sq_neighs = replicate (nat (sq_offsets ! N)) 0;
              sq_index = GenIndex sq_offsets sq_neighs;
              sq_neighs = fold (\<lambda>n sq_neighs.
                                  std_copy neighs (index ! n) (index ! n + diffs ! n)
                                    sq_neighs (sq_index ! n))
                            [0..<N] sq_neighs
          in Some (store_side g transpose' neighs, sq_index, sq_neighs))"

text \<open>
  \<^verbatim>\<open>BuilderBase::SquishGraph\<close> (builder.h, lines 148-162). The local pointers
  \<^verbatim>\<open>in_index\<close> and \<^verbatim>\<open>in_neighs\<close> are declared without a value and are assigned only by the
  second call of \<^verbatim>\<open>SquishCSR\<close>. The result is the new graph; the argument, rearranged in
  place, is not used again by the callers in this file.
\<close>

definition SquishGraph :: "BuilderBase \<Rightarrow> CSRGraph \<Rightarrow> CSRGraph option" where
  "SquishGraph b g =
     (case SquishCSR g False of
        None \<Rightarrow> None
      | Some (g, out_index', out_neighs') \<Rightarrow>
          if directed g then
            (if invert b then
               (case SquishCSR g True of
                  None \<Rightarrow> None
                | Some (g, in_index', in_neighs') \<Rightarrow>
                    Some (CSRGraph_directed (num_nodes g) out_index' out_neighs'
                            (Ptr in_index') (Ptr in_neighs')))
             else Some (CSRGraph_directed (num_nodes g) out_index' out_neighs'
                          Unassigned Unassigned))
          else Some (CSRGraph_undirected (num_nodes g) out_index' out_neighs'))"

text \<open>
  A pair of arrays that forms a CSR adjacency for \<open>N\<close> nodes: \<open>N + 1\<close> non-decreasing
  markers that start at 0 and end at the length of the neighbor array.
\<close>

definition csr_pair :: "nat \<Rightarrow> SGOffset list \<Rightarrow> NodeID list \<Rightarrow> bool" where
  "csr_pair N index neighs \<longleftrightarrow>
     length index = N + 1 \<and> sorted index \<and> index ! 0 = 0 \<and> index ! N = int (length neighs)"

text \<open>
  A pair in which every slice is strictly ascending, so without duplicates, and no node
  is its own neighbor.
\<close>

definition squished :: "nat \<Rightarrow> SGOffset list \<Rightarrow> NodeID list \<Rightarrow> bool" where
  "squished N index neighs \<longleftrightarrow>
     csr_pair N index neighs \<and>
     (\<forall>n < N. sorted_wrt (<) (neigh index neighs n) \<and> distinct (neigh index neighs n) \<and>
              int n \<notin> set (neigh index neighs n))"

text \<open>
  A graph as the builder hands it to \<^verbatim>\<open>SquishGraph\<close>: the outgoing pair is a CSR
  adjacency, and so is the incoming pair of a directed graph when the builder inverts.
\<close>

definition built_graph :: "BuilderBase \<Rightarrow> CSRGraph \<Rightarrow> bool" where
  "built_graph b g \<longleftrightarrow>
     0 \<le> num_nodes g \<and>
     csr_pair (nat (num_nodes g)) (out_index g) (out_neighs g) \<and>
     (directed g \<and> invert b \<longrightarrow>
        (case side g True of
           Some (index, neighs) \<Rightarrow> csr_pair (nat (num_nodes g)) index neighs
         | None \<Rightarrow> False))"

text \<open>What the first loop of \<^verbatim>\<open>SquishCSR\<close> keeps of node \<open>n\<close>'s slice.\<close>

definition cleaned :: "nat \<Rightarrow> NodeID list \<Rightarrow> NodeID list" where
  "cleaned n xs = removeAll (int n) (remdups_adj (sort xs))"


section \<open>Relabelling by degree\<close>

text \<open>A call of \<^verbatim>\<open>std::exit\<close>: what was printed before it, and the exit status.\<close>

datatype failure = Exit string int

text \<open>
  The first part of \<^verbatim>\<open>BuilderBase::RelabelByDegree\<close> (builder.h, lines 231-237): the
  (degree, node) pairs, sorted with \<^verbatim>\<open>std::greater\<close>, that is in descending order of the
  lexicographic order on pairs.
\<close>

definition degree_id_pairs :: "CSRGraph \<Rightarrow> (int \<times> NodeID) list" where
  "degree_id_pairs g =
     (let N = nat (num_nodes g);
          pairs = fold (\<lambda>n pairs. pairs[n := (out_degree g n, int n)])
                    [0..<N] (replicate N (0, 0))
      in rev (sort pairs))"

text \<open>The arrays \<^verbatim>\<open>degrees\<close> and \<^verbatim>\<open>new_ids\<close> (builder.h, lines 238-244).\<close>

definition degrees_new_ids :: "CSRGraph \<Rightarrow> NodeID list \<times> NodeID list" where
  "degrees_new_ids g =
     (let N = nat (num_nodes g);
          pairs = degree_id_pairs g
      in fold (\<lambda>n (degrees, new_ids).
                 (degrees[n := fst (pairs ! n)], new_ids[nat (snd (pairs ! n)) := int n]))
           [0..<N] (replicate N 0, replicate N 0))"

text \<open>
  The body of the last loop for node \<open>u\<close> (builder.h, lines 250-252): the translated
  neighbors are placed in the slice of \<open>new_ids[u]\<close>, which is then sorted.
\<close>

definition relabel_node ::
  "CSRGraph \<Rightarrow> NodeID list \<Rightarrow> SGOffset list \<Rightarrow> nat \<Rightarrow>
   SGOffset list \<times> NodeID list \<Rightarrow> SGOffset list \<times> NodeID list" where
  "relabel_node g new_ids index u st =
     (let (offsets, neighs) =
             fold (\<lambda>v st. place st (new_ids ! u) (new_ids ! nat v)) (out_neigh g u) st
      in (offsets,
          std_sort neighs (index ! nat (new_ids ! u)) (index ! (nat (new_ids ! u) + 1))))"

text \<open>
  \<^verbatim>\<open>BuilderBase::RelabelByDegree\<close> (builder.h, lines 222-257). \<^verbatim>\<open>std::exit\<close> ends the
  process, so the function returns either the exit or the relabelled graph.
\<close>

definition RelabelByDegree :: "CSRGraph \<Rightarrow> failure + CSRGraph" where
  "RelabelByDegree g =
     (if directed g then Inl (Exit ''Cannot relabel directed graph'' (- 11))
      else
        let N = nat (num_nodes g);
            (degrees, new_ids) = degrees_new_ids g;
            offsets = ParallelPrefixSum degrees;
            neighs = replicate (nat (offsets ! N)) 0;
            index = GenIndex offsets neighs;
            (offsets, neighs) = fold (relabel_node g new_ids index) [0..<N] (offsets, neighs)
        in Inr (CSRGraph_undirected (num_nodes g) index neighs))"

text \<open>
  The adjacency entries of a graph as a multiset of (node, neighbor) pairs; an undirected
  graph stores the edge between \<open>u\<close> and \<open>v\<close> once in each endpoint's slice.
\<close>

definition arcs :: "CSRGraph \<Rightarrow> (NodeID \<times> NodeID) multiset" where
  "arcs g =
     mset (concat (map (\<lambda>u. map (\<lambda>v. (int u, v)) (out_neigh g u)) [0..<nat (num_nodes g)]))"

text \<open>
  An undirected graph as \<^verbatim>\<open>RelabelByDegree\<close> expects it: the outgoing pair is a CSR
  adjacency and every stored neighbor is a node of the graph.
\<close>

definition undirected_graph :: "CSRGraph \<Rightarrow> bool" where
  "undirected_graph g \<longleftrightarrow>
     \<not> directed g \<and> 0 \<le> num_nodes g \<and>
     csr_pair (nat (num_nodes g)) (out_index g) (out_neighs g) \<and>
     (\<forall>v \<in> set (out_neighs g). 0 \<le> v \<and> v < num_nodes g)"


section \<open>Bucket iterators\<close>

text \<open>
  \<^verbatim>\<open>Bucket<T_>::iterator\<close> of \<^verbatim>\<open>bucket.h\<close>: a chunk index and an offset in the chunk, both
  \<^verbatim>\<open>size_t\<close>, and a reference to the bucket's chunks, which the operations take as an
  argument. \<^verbatim>\<open>size_t\<close> and \<^verbatim>\<open>int64_t\<close> are 64-bit words; arithmetic that mixes them is
  unsigned and wraps, and an \<^verbatim>\<open>int64_t\<close> result is read as a signed value.
\<close>

type_synonym size_t = "64 word"
type_synonym int64_t = "64 word"

record iterator =
  chunk_index :: size_t
  chunk_offset :: size_t

definition chunks_size :: "'a list list \<Rightarrow> size_t" where
  "chunks_size chunks = of_nat (length chunks)"

definition chunk_size :: "'a list list \<Rightarrow> size_t \<Rightarrow> size_t" where
  "chunk_size chunks i = of_nat (length (chunks ! unat i))"

text \<open>\<^verbatim>\<open>Bucket::begin\<close> and \<^verbatim>\<open>Bucket::end\<close> (bucket.h, lines 156-157).\<close>

definition begin_it :: "'a list list \<Rightarrow> iterator" where
  "begin_it chunks = \<lparr>chunk_index = 0, chunk_offset = 0\<rparr>"

definition end_it :: "'a list list \<Rightarrow> iterator" where
  "end_it chunks = \<lparr>chunk_index = chunks_size chunks, chunk_offset = 0\<rparr>"

text \<open>\<^verbatim>\<open>iterator::operator+=\<close> (bucket.h, lines 93-105).\<close>

function operator_plus_eq :: "'a list list \<Rightarrow> iterator \<Rightarrow> int64_t \<Rightarrow> iterator" where
  "operator_plus_eq chunks it to_add =
     (if to_add \<noteq> 0 \<and> chunk_index it < chunks_size chunks then
        (let off = chunk_offset it + to_add in
         if off \<ge> chunk_size chunks (chunk_index it)
         then operator_plus_eq chunks \<lparr>chunk_index = chunk_index it + 1, chunk_offset = 0\<rparr>
                (off - chunk_size chunks (chunk_index it))
         else operator_plus_eq chunks (it\<lparr>chunk_offset := off\<rparr>) 0)
      else it)"
  by pat_completeness auto

text \<open>The two loops of \<^verbatim>\<open>iterator::operator-\<close> (bucket.h, lines 115-118 and 123-126).\<close>

function minus_down :: "'a list list \<Rightarrow> size_t \<Rightarrow> size_t \<Rightarrow> int64_t \<Rightarrow> int64_t" where
  "minus_down chunks op_index other_index total' =
     (if op_index > other_index
      then minus_down chunks (op_index - 1) other_index
             (total' + chunk_size chunks (op_index - 1))
      else total')"
  by pat_completeness auto

function minus_up :: "'a list list \<Rightarrow> size_t \<Rightarrow> size_t \<Rightarrow> int64_t \<Rightarrow> int64_t" where
  "minus_up chunks op_index other_index total' =
     (if op_index < other_index
      then minus_up chunks (op_index + 1) other_index (total' + chunk_size chunks op_index)
      else total')"
  by pat_completeness auto

text \<open>The logical position of an iterator: the elements before it in iteration order.\<close>

definition position :: "'a list list \<Rightarrow> iterator \<Rightarrow> nat" where
  "position chunks it =
     sum_list (map length (take (unat (chunk_index it)) chunks)) + unat (chunk_offset it)"

text \<open>\<^verbatim>\<open>iterator::operator<\<close> (bucket.h, lines 132-137).\<close>

definition operator_less :: "iterator \<Rightarrow> iterator \<Rightarrow> bool" where
  "operator_less it other =
     (if chunk_index it = chunk_index other
      then chunk_offset it = chunk_offset other
      else chunk_index it < chunk_index other)"


section \<open>Termination of the iterator loops\<close>

lemma unat_succ_less: "(x::64 word) < y \<Longrightarrow> unat (x + 1) = unat x + 1"
  by (metis (no_types, lifting) add.commute add_0 inc_i inc_le
      unat_plus_simple unsigned_0 unsigned_1 word_gt_0)

termination operator_plus_eq
proof (relation "measure (\<lambda>(chunks, it, to_add).
          2 * (unat (chunks_size chunks) - unat (chunk_index it)) + (if to_add = 0 then 0 else 1))")
  show "wf (measure (\<lambda>(chunks, it, to_add).
          2 * (unat (chunks_size chunks) - unat (chunk_index it)) + (if to_add = 0 then 0 else 1)))"
    by simp
next
  fix chunks :: "'a list list" and it :: iterator and to_add :: int64_t and off :: size_t
  assume a: "to_add \<noteq> 0 \<and> chunk_index it < chunks_size chunks"
  then have "unat (chunk_index it + 1) = unat (chunk_index it) + 1"
    by (intro unat_succ_less [of _ "chunks_size chunks"]) simp
  moreover from a have "unat (chunk_index it) < unat (chunks_size chunks)"
    by (simp add: word_less_nat_alt)
  ultimately show "((chunks, \<lparr>chunk_index = chunk_index it + 1, chunk_offset = 0\<rparr>,
             off - chunk_size chunks (chunk_index it)), chunks, it, to_add)
          \<in> measure (\<lambda>(chunks, it, to_add).
          2 * (unat (chunks_size chunks) - unat (chunk_index it)) + (if to_add = 0 then 0 else 1))"
    using a by (auto split: if_splits)
next
  fix chunks :: "'a list list" and it :: iterator and to_add :: int64_t and off :: size_t
  assume a: "to_add \<noteq> 0 \<and> chunk_index it < chunks_size chunks"
  then show "((chunks, it\<lparr>chunk_offset := off\<rparr>, 0), chunks, it, to_add)
          \<in> measure (\<lambda>(chunks, it, to_add).
          2 * (unat (chunks_size chunks) - unat (chunk_index it)) + (if to_add = 0 then 0 else 1))"
    by simp
qed

termination minus_down
proof (relation "measure (\<lambda>(chunks, op_index, other_index, total'). unat op_index)")
  show "wf (measure (\<lambda>(chunks, op_index, other_index, total'). unat op_index))"
    by simp
next
  fix chunks :: "'a list list" and op_index other_index total' :: "64 word"
  assume "other_index < op_index"
  then have "op_index \<noteq> 0" by auto
  then show "((chunks, op_index - 1, other_index, total' + chunk_size chunks (op_index - 1)),
              chunks, op_index, other_index, total')
             \<in> measure (\<lambda>(chunks, op_index, other_index, total'). unat op_index)"
    by (simp add: measure_unat)
qed

termination minus_up
proof (relation "measure (\<lambda>(chunks, op_index, other_index, total').
                   unat other_index - unat op_index)")
  show "wf (measure (\<lambda>(chunks, op_index, other_index, total').
                   unat other_index - unat op_index))"
    by simp
next
  fix chunks :: "'a list list" and op_index other_index total' :: "64 word"
  assume a: "op_index < other_index"
  then have "unat (op_index + 1) = unat op_index + 1"
    by (rule unat_succ_less)
  moreover from a have "unat op_index < unat other_index"
    by (simp add: word_less_nat_alt)
  ultimately show "((chunks, op_index + 1, other_index, total' + chunk_size chunks op_index),
              chunks, op_index, other_index, total')
             \<in> measure (\<lambda>(chunks, op_index, other_index, total').
                   unat other_index - unat op_index)"
    by simp
qed

declare operator_plus_eq.simps [simp del] minus_down.simps [simp del] minus_up.simps [simp del]

text \<open>\<^verbatim>\<open>iterator::operator-\<close> (bucket.h, lines 108-129); the result is an \<^verbatim>\<open>int64_t\<close>.\<close>

definition operator_minus :: "'a list list \<Rightarrow> iterator \<Rightarrow> iterator \<Rightarrow> int" where
  "operator_minus chunks it other =
     sint (if chunk_index it = chunk_index other
           then chunk_offset it - chunk_offset other
           else if chunk_index it > chunk_index other
           then minus_down chunks (chunk_index it) (chunk_index other) (0 + chunk_offset it)
                  - chunk_offset other
           else minus_up chunks (chunk_index it + 1) (chunk_index other)
                  (0 + (chunk_size chunks (chunk_index it) - chunk_offset it))
                  + chunk_offset other)"

section \<open>The two prefix sums agree\<close>

text \<open>
  Both variants are characterised cell by cell: cell \<open>i\<close> of the result is the sum of the
  first \<open>i\<close> degrees. The loops that scan a range are instances of one \<open>fold\<close>.
\<close>

lemma scan_fold:
  "a \<le> b \<Longrightarrow>
   fold (\<lambda>n (s, t). (s[n := t], t + d ! n)) [a..<b] (s0, t0) =
     (map (\<lambda>i. if a \<le> i \<and> i < b then t0 + sum ((!) d) {a..<i} else s0 ! i) [0..<length s0],
      t0 + sum ((!) (d::int list)) {a..<b})"
proof (induction b)
  case 0
  then show ?case by (simp add: map_nth)
next
  case (Suc b)
  show ?case
  proof (cases "a = Suc b")
    case True
    have "s0 = map (\<lambda>i. if Suc b \<le> i \<and> i < Suc b then t0 + sum ((!) d) {a..<i} else s0 ! i)
                 [0..<length s0]"
      by (rule nth_equalityI) auto
    with True show ?thesis by simp
  next
    case False
    with Suc.prems have ab: "a \<le> b" by simp
    have "(map (\<lambda>i. if a \<le> i \<and> i < b then t0 + sum ((!) d) {a..<i} else s0 ! i)
              [0..<length s0]) [b := t0 + sum ((!) d) {a..<b}] =
          map (\<lambda>i. if a \<le> i \<and> i < Suc b then t0 + sum ((!) d) {a..<i} else s0 ! i)
              [0..<length s0]"
      using ab by (intro nth_equalityI) (auto simp: nth_list_update less_Suc_eq)
    with ab Suc.IH show ?thesis
      by (simp add: sum.atLeastLessThan_concat add.assoc)
  qed
qed

lemma PrefixSum_closed:
  "PrefixSum d = map (\<lambda>i. sum ((!) d) {0..<i}) [0..<length d + 1]"
proof -
  let ?s0 = "replicate (length d + 1) (0::int)"
  have loop: "fold (\<lambda>n (sums, total). (sums[n := total], total + d ! n)) [0..<length d] (?s0, 0) =
          (map (\<lambda>i. if 0 \<le> i \<and> i < length d then 0 + sum ((!) d) {0..<i} else ?s0 ! i)
             [0..<length ?s0],
           0 + sum ((!) d) {0..<length d})"
    by (rule scan_fold) simp
  show ?thesis
    unfolding PrefixSum_def Let_def loop fst_conv snd_conv
    by (rule nth_equalityI) (auto simp: nth_list_update less_Suc_eq simp del: upt_Suc)
qed

lemma sum_fold:
  "fold (\<lambda>i lsum. lsum + d ! i) [a..<b] t0 = t0 + sum ((!) (d::int list)) {a..<b}"
proof (cases "a \<le> b")
  case True
  then show ?thesis by (induction b) (auto simp: le_Suc_eq add.assoc)
next
  case False
  then show ?thesis by simp
qed

lemma fill_fold:
  "k \<le> length xs \<Longrightarrow>
   fold (\<lambda>n xs. xs[n := f n]) [0..<k] xs = map f [0..<k] @ drop k xs"
proof (induction k)
  case 0
  then show ?case by simp
next
  case (Suc k)
  then have "(map f [0..<k] @ drop k xs)[k := f k] = map f [0..<k] @ f k # drop (Suc k) xs"
    by (simp add: list_update_append Cons_nth_drop_Suc [symmetric])
  with Suc show ?case by simp
qed

lemma block_sums_concat:
  "sum (block_sum bs d) {0..<k} = sum ((!) d) {0..<min (k * bs) (length d)}"
proof (induction k)
  case 0
  then show ?case by simp
next
  case (Suc k)
  show ?case
  proof (cases "k * bs \<le> length d")
    case True
    then have "sum ((!) d) {0..<k * bs} + sum ((!) d) {k * bs..<min (Suc k * bs) (length d)} =
               sum ((!) d) {0..<min (Suc k * bs) (length d)}"
      by (intro sum.atLeastLessThan_concat) simp_all
    with True Suc show ?thesis by (simp add: block_sum_def min_absorb1)
  next
    case False
    then have "min (k * bs) (length d) = length d" "min (Suc k * bs) (length d) = length d"
      by simp_all
    with False Suc show ?thesis by (simp add: block_sum_def)
  qed
qed

lemma num_blocks_props:
  assumes "0 < bs"
  shows "(k::nat) < (n + bs - 1) div bs \<Longrightarrow> k * bs < n"
    and "(n::nat) \<le> ((n + bs - 1) div bs) * bs"
proof -
  show "k < (n + bs - 1) div bs \<Longrightarrow> k * bs < n"
  proof -
    assume "k < (n + bs - 1) div bs"
    then have "\<not> (n + bs - 1) div bs < Suc k" by simp
    with assms have "\<not> n + bs - 1 < Suc k * bs"
      by (simp add: div_less_iff_less_mult)
    then have "bs + k * bs \<le> n + bs - 1" by simp
    with assms show ?thesis by linarith
  qed
  have "n + bs - 1 < Suc ((n + bs - 1) div bs) * bs"
    using assms dividend_less_div_times [of bs "n + bs - 1"] by (simp add: mult.commute)
  with assms show "n \<le> ((n + bs - 1) div bs) * bs" by simp
qed

lemma local_sums_fold:
  "fold (\<lambda>block local_sums.
           let block_end = min ((block + 1) * bs) (length d);
               lsum = fold (\<lambda>i lsum. lsum + d ! i) [block * bs..<block_end] 0
           in local_sums[block := lsum])
     [0..<nb] (replicate nb 0) = map (block_sum bs d) [0..<nb]"
proof -
  have "fold (\<lambda>block local_sums. local_sums[block := block_sum bs d block])
          [0..<nb] (replicate nb 0) = map (block_sum bs d) [0..<nb] @ drop nb (replicate nb 0)"
    by (rule fill_fold) simp
  then show ?thesis by (simp add: Let_def sum_fold block_sum_def)
qed

lemma bulk_prefix_fold:
  assumes "length ls = nb"
  shows "(fst (fold (\<lambda>block (bulk_prefix, total).
                    (bulk_prefix[block := total], total + ls ! block))
              [0..<nb] (replicate (nb + 1) 0, 0)))
           [nb := snd (fold (\<lambda>block (bulk_prefix, total).
                    (bulk_prefix[block := total], total + ls ! block))
              [0..<nb] (replicate (nb + 1) 0, 0))] = PrefixSum ls"
  using assms by (simp add: PrefixSum_def Let_def)

lemma bulk_prefix_nth:
  assumes "k \<le> nb"
  shows "PrefixSum (map (block_sum bs d) [0..<nb]) ! k = sum ((!) d) {0..<min (k * bs) (length d)}"
proof -
  have "PrefixSum (map (block_sum bs d) [0..<nb]) ! k =
        sum ((!) (map (block_sum bs d) [0..<nb])) {0..<k}"
    using assms by (simp add: PrefixSum_closed del: upt_Suc)
  also have "\<dots> = sum (block_sum bs d) {0..<k}"
    using assms by (intro sum.cong) auto
  finally show ?thesis by (simp add: block_sums_concat)
qed

lemma prefix_fold:
  assumes bs: "0 < bs" and nb: "nb = (length d + bs - 1) div bs" and K: "K \<le> nb"
    and bulk: "\<And>k. k \<le> nb \<Longrightarrow> bulk ! k = sum ((!) (d::int list)) {0..<min (k * bs) (length d)}"
  shows "fold (\<lambda>block prefix.
                 let block_end = min ((block + 1) * bs) (length d)
                 in fst (fold (\<lambda>i (prefix, local_total).
                                 (prefix[i := local_total], local_total + d ! i))
                           [block * bs..<block_end] (prefix, bulk ! block)))
           [0..<K] (replicate (length d + 1) 0) =
         map (\<lambda>i. if i < min (K * bs) (length d) then sum ((!) d) {0..<i} else 0)
           [0..<length d + 1]"
  using K
proof (induction K)
  case 0
  show ?case by (rule nth_equalityI) (auto simp del: upt_Suc replicate_Suc)
next
  case (Suc K)
  let ?n = "length d"
  let ?old = "map (\<lambda>i. if i < min (K * bs) ?n then sum ((!) d) {0..<i} else 0) [0..<?n + 1]"
  let ?be = "min ((K + 1) * bs) ?n"
  from Suc.prems have Knb: "K < nb" by simp
  with bs nb have lt: "K * bs < ?n" by (simp add: num_blocks_props(1))
  then have le: "K * bs \<le> ?be" by simp
  have bK: "bulk ! K = sum ((!) d) {0..<K * bs}"
    using bulk [of K] Knb lt by (simp add: min_absorb1)
  have len: "length ?old = ?n + 1" by simp
  have old_nth: "?old ! i = (if i < min (K * bs) ?n then sum ((!) d) {0..<i} else 0)"
    if "i < ?n + 1" for i
    using that by (simp del: upt_Suc)
  have "fst (fold (\<lambda>i (prefix, local_total). (prefix[i := local_total], local_total + d ! i))
               [K * bs..<?be] (?old, bulk ! K)) =
        map (\<lambda>i. if K * bs \<le> i \<and> i < ?be then bulk ! K + sum ((!) d) {K * bs..<i} else ?old ! i)
          [0..<?n + 1]"
    unfolding scan_fold [OF le] fst_conv len ..
  also have "\<dots> = map (\<lambda>i. if i < min (Suc K * bs) ?n then sum ((!) d) {0..<i} else 0)
                      [0..<?n + 1]"
  proof (rule map_cong [OF refl])
    fix i
    assume "i \<in> set [0..<?n + 1]"
    then have i: "i < ?n + 1" by (simp del: upt_Suc)
    have cat: "K * bs \<le> i \<Longrightarrow> sum ((!) d) {0..<K * bs} + sum ((!) d) {K * bs..<i} =
                 sum ((!) d) {0..<i}"
      by (intro sum.atLeastLessThan_concat) simp_all
    consider "i < K * bs" | "K * bs \<le> i" "i < ?be" | "?be \<le> i" by linarith
    then show "(if K * bs \<le> i \<and> i < ?be then bulk ! K + sum ((!) d) {K * bs..<i}
                else ?old ! i) =
               (if i < min (Suc K * bs) ?n then sum ((!) d) {0..<i} else 0)"
    proof cases
      case 1
      with lt show ?thesis unfolding old_nth [OF i] by simp
    next
      case 2
      with cat bK show ?thesis by simp
    next
      case 3
      then have "\<not> i < ?be" by linarith
      moreover from this have "\<not> i < min (Suc K * bs) ?n" by (simp only: Suc_eq_plus1 simp_thms)
      moreover from 3 le have "\<not> i < min (K * bs) ?n" by linarith
      ultimately show ?thesis unfolding old_nth [OF i] by (simp only: if_False simp_thms)
    qed
  qed
  finally have step:
    "fst (fold (\<lambda>i (prefix, local_total). (prefix[i := local_total], local_total + d ! i))
            [K * bs..<?be] (?old, bulk ! K)) =
     map (\<lambda>i. if i < min (Suc K * bs) ?n then sum ((!) d) {0..<i} else 0) [0..<?n + 1]" .
  from Knb have IH: "fold (\<lambda>block prefix.
                 let block_end = min ((block + 1) * bs) (length d)
                 in fst (fold (\<lambda>i (prefix, local_total).
                                 (prefix[i := local_total], local_total + d ! i))
                           [block * bs..<block_end] (prefix, bulk ! block)))
           [0..<K] (replicate (length d + 1) 0) = ?old"
    by (intro Suc.IH) simp
  show ?case
    unfolding upt_Suc_append [OF le0] fold_append comp_apply IH
    by (simp only: fold_simps Let_def step id_apply)
qed

lemma block_size_pos: "0 < block_size"
  by (simp add: block_size_def)

lemma ParallelPrefixSum_closed:
  "ParallelPrefixSum d = map (\<lambda>i. sum ((!) d) {0..<i}) [0..<length d + 1]"
proof -
  let ?n = "length d"
  let ?nb = "(?n + block_size - 1) div block_size"
  let ?ls = "map (block_sum block_size d) [0..<?nb]"
  let ?bulk = "PrefixSum ?ls"
  have bulk: "\<And>k. k \<le> ?nb \<Longrightarrow> ?bulk ! k = sum ((!) d) {0..<min (k * block_size) ?n}"
    by (rule bulk_prefix_nth)
  have full: "min (?nb * block_size) ?n = ?n"
    using num_blocks_props(2) [OF block_size_pos, of ?n] by simp
  have "ParallelPrefixSum d =
          (map (\<lambda>i. if i < min (?nb * block_size) ?n then sum ((!) d) {0..<i} else 0)
             [0..<?n + 1]) [?n := ?bulk ! ?nb]"
    unfolding ParallelPrefixSum_def Let_def local_sums_fold [unfolded Let_def]
    apply (simp only: bulk_prefix_fold length_map length_upt diff_zero)
    apply (simp only: prefix_fold [unfolded Let_def, where bulk = "?bulk" and d = d
                and bs = block_size, OF block_size_pos refl order_refl bulk])
    done
  also have "\<dots> = map (\<lambda>i. sum ((!) d) {0..<i}) [0..<?n + 1]"
    unfolding full bulk [OF order_refl]
    by (rule nth_equalityI) (auto simp: nth_list_update less_Suc_eq simp del: upt_Suc)
  finally show ?thesis .
qed

lemma PrefixSum_length: "length (PrefixSum d) = length d + 1"
  by (simp add: PrefixSum_closed del: upt_Suc)

lemma PrefixSum_nth: "i \<le> length d \<Longrightarrow> PrefixSum d ! i = sum ((!) d) {0..<i}"
  by (simp add: PrefixSum_closed del: upt_Suc)

lemma PrefixSum_Suc: "i < length d \<Longrightarrow> PrefixSum d ! (i + 1) = PrefixSum d ! i + d ! i"
  by (simp add: PrefixSum_nth)

lemma PrefixSum_sorted:
  assumes "\<forall>x \<in> set d. 0 \<le> x"
  shows "sorted (PrefixSum d)"
proof -
  have "PrefixSum d ! i \<le> PrefixSum d ! j" if "i \<le> j" "j < length (PrefixSum d)" for i j
  proof -
    from that have j: "j \<le> length d" by (simp add: PrefixSum_length)
    have "sum ((!) d) {0..<i} \<le> sum ((!) d) {0..<j}"
    proof (rule sum_mono2)
      show "finite {0..<j}" by simp
      show "{0..<i} \<subseteq> {0..<j}" using that by simp
      fix k assume "k \<in> {0..<j} - {0..<i}"
      with j have "k < length d" by simp
      with assms show "0 \<le> d ! k" by simp
    qed
    with that j show ?thesis by (simp add: PrefixSum_nth)
  qed
  then show ?thesis by (simp add: sorted_iff_nth_mono)
qed

text \<open>
  Claim C2. For every degree array the serial and the block-parallel prefix sum return
  the same offset array; it has one cell more than the degree array, starts with 0,
  satisfies \<open>offset[i+1] = offset[i] + degree[i]\<close>, and is non-decreasing when the degrees
  are non-negative, as the degrees of a DegreeArray are.
\<close>

theorem prefix_sum_variants_agree:
  "ParallelPrefixSum degrees = PrefixSum degrees \<and>
   length (PrefixSum degrees) = length degrees + 1 \<and>
   PrefixSum degrees ! 0 = 0 \<and>
   (\<forall>i < length degrees. PrefixSum degrees ! (i + 1) = PrefixSum degrees ! i + degrees ! i) \<and>
   ((\<forall>d \<in> set degrees. 0 \<le> d) \<longrightarrow> sorted (PrefixSum degrees))"
proof (intro conjI allI impI)
  show "ParallelPrefixSum degrees = PrefixSum degrees"
    by (simp only: ParallelPrefixSum_closed PrefixSum_closed)
  show "length (PrefixSum degrees) = length degrees + 1"
    by (rule PrefixSum_length)
  show "PrefixSum degrees ! 0 = 0"
    by (simp add: PrefixSum_nth)
  show "PrefixSum degrees ! (i + 1) = PrefixSum degrees ! i + degrees ! i"
    if "i < length degrees" for i
    using that by (rule PrefixSum_Suc)
  show "sorted (PrefixSum degrees)" if "\<forall>d \<in> set degrees. 0 \<le> d"
    using that by (rule PrefixSum_sorted)
qed

theorem prefix_sum_variants_agree_witness:
  "ParallelPrefixSum [3, 1, 4, 1, 5] = [0, 3, 4, 8, 9, 14] \<and>
   PrefixSum [3, 1, 4, 1, 5] = [0, 3, 4, 8, 9, 14] \<and>
   sorted (PrefixSum [3, 1, 4, 1, 5])"
  using prefix_sum_variants_agree [of "[3, 1, 4, 1, 5]"]
  by (simp add: PrefixSum_def)

section \<open>Degree counting\<close>

lemma fetch_and_add_length [simp]: "length (snd (fetch_and_add xs i inc)) = length xs"
  by (simp add: fetch_and_add_def)

lemma sum_list_update_int:
  "i < length xs \<Longrightarrow> sum_list (xs[i := x]) = sum_list xs + x - xs ! i" for xs :: "int list"
  by (induction xs arbitrary: i) (auto split: nat.splits)

lemma fetch_and_add_sum:
  "i < length xs \<Longrightarrow> sum_list (snd (fetch_and_add xs i inc)) = sum_list xs + inc"
  by (simp add: fetch_and_add_def sum_list_update_int)

lemma CountDegrees_fold:
  assumes "\<forall>e \<in> set el. 0 \<le> fst e \<and> fst e < int (length degrees) \<and>
                        0 \<le> snd e \<and> snd e < int (length degrees)"
  shows "length (fold (\<lambda>e degrees.
             let degrees = (if symmetrize b \<or> (\<not> symmetrize b \<and> \<not> transpose')
                            then snd (fetch_and_add degrees (nat (fst e)) 1) else degrees);
                 degrees = (if symmetrize b \<or> (\<not> symmetrize b \<and> transpose')
                            then snd (fetch_and_add degrees (nat (snd e)) 1) else degrees)
             in degrees) el degrees) = length degrees \<and>
         sum_list (fold (\<lambda>e degrees.
             let degrees = (if symmetrize b \<or> (\<not> symmetrize b \<and> \<not> transpose')
                            then snd (fetch_and_add degrees (nat (fst e)) 1) else degrees);
                 degrees = (if symmetrize b \<or> (\<not> symmetrize b \<and> transpose')
                            then snd (fetch_and_add degrees (nat (snd e)) 1) else degrees)
             in degrees) el degrees) =
         sum_list degrees + (if symmetrize b then 2 * int (length el) else int (length el))"
  using assms
proof (induction el arbitrary: degrees)
  case Nil
  then show ?case by simp
next
  case (Cons e el)
  let ?d1 = "if symmetrize b \<or> (\<not> symmetrize b \<and> \<not> transpose')
             then snd (fetch_and_add degrees (nat (fst e)) 1) else degrees"
  let ?d2 = "if symmetrize b \<or> (\<not> symmetrize b \<and> transpose')
             then snd (fetch_and_add ?d1 (nat (snd e)) 1) else ?d1"
  from Cons.prems have e: "nat (fst e) < length degrees" "nat (snd e) < length degrees"
    by auto
  have len: "length ?d2 = length degrees" by simp
  have sum: "sum_list ?d2 = sum_list degrees + (if symmetrize b then 2 else 1)"
    using e by (simp add: fetch_and_add_sum)
  from Cons.prems have "\<forall>e \<in> set el. 0 \<le> fst e \<and> fst e < int (length ?d2) \<and>
                        0 \<le> snd e \<and> snd e < int (length ?d2)"
    unfolding len by simp
  from Cons.IH [OF this] show ?case
    unfolding len sum by (simp add: Let_def)
qed

lemma CountDegrees_length:
  "valid_el b el \<Longrightarrow> length (CountDegrees b el transpose') = nat (num_nodes_B b)"
  using CountDegrees_fold [of el "replicate (nat (num_nodes_B b)) 0" b transpose']
  by (simp add: CountDegrees_def valid_el_def)

text \<open>
  Claim C3. For an edge list whose endpoints are nodes of the builder, the degrees
  counted by \<^verbatim>\<open>CountDegrees\<close> sum to twice the number of edges when symmetrizing, and to
  the number of edges otherwise, whatever the transpose flag: self-loops and duplicates
  are counted like any other edge.
\<close>

theorem CountDegrees_sum:
  "valid_el b el \<Longrightarrow>
   sum_list (CountDegrees b el transpose') =
     (if symmetrize b then 2 * int (length el) else int (length el))"
  using CountDegrees_fold [of el "replicate (nat (num_nodes_B b)) 0" b transpose']
  by (simp add: CountDegrees_def valid_el_def sum_list_replicate)

theorem CountDegrees_sum_witness:
  "valid_el \<lparr>symmetrize = True, num_nodes_B = 3, invert = True\<rparr> [(0, 1), (1, 0), (0, 1), (2, 2)] \<and>
   sum_list (CountDegrees \<lparr>symmetrize = True, num_nodes_B = 3, invert = True\<rparr>
               [(0, 1), (1, 0), (0, 1), (2, 2)] False) = 8 \<and>
   valid_el \<lparr>symmetrize = False, num_nodes_B = 3, invert = True\<rparr> [(0, 1), (1, 0), (0, 1), (2, 2)] \<and>
   sum_list (CountDegrees \<lparr>symmetrize = False, num_nodes_B = 3, invert = True\<rparr>
               [(0, 1), (1, 0), (0, 1), (2, 2)] True) = 4"
  using CountDegrees_sum [of "\<lparr>symmetrize = True, num_nodes_B = 3, invert = True\<rparr>"
                             "[(0, 1), (1, 0), (0, 1), (2, 2)]" False]
        CountDegrees_sum [of "\<lparr>symmetrize = False, num_nodes_B = 3, invert = True\<rparr>"
                             "[(0, 1), (1, 0), (0, 1), (2, 2)]" True]
  by (simp add: valid_el_def)

section \<open>Relabelling a directed graph\<close>

text \<open>
  Claim C6. \<^verbatim>\<open>RelabelByDegree\<close> on a directed graph is fatal: the message is printed and
  the process exits with status \<open>-11\<close>, which is not zero; no graph is returned.
\<close>

theorem RelabelByDegree_directed_exits:
  "directed g \<Longrightarrow>
   RelabelByDegree g = Inl (Exit ''Cannot relabel directed graph'' (- 11)) \<and>
   (- 11 :: int) \<noteq> 0 \<and> (\<forall>g'. RelabelByDegree g \<noteq> Inr g')"
  by (simp add: RelabelByDegree_def)

theorem RelabelByDegree_directed_exits_witness:
  "directed (CSRGraph_directed 2 [0, 1, 1] [1] (Ptr [0, 0, 1]) (Ptr [0])) \<and>
   RelabelByDegree (CSRGraph_directed 2 [0, 1, 1] [1] (Ptr [0, 0, 1]) (Ptr [0])) =
     Inl (Exit ''Cannot relabel directed graph'' (- 11))"
  using RelabelByDegree_directed_exits [of "CSRGraph_directed 2 [0, 1, 1] [1] (Ptr [0, 0, 1]) (Ptr [0])"]
  by (simp add: CSRGraph_directed_def)

section \<open>The empty edge list\<close>

lemma ParallelPrefixSum_single: "ParallelPrefixSum [0] = [0, 0]"
  by (simp add: ParallelPrefixSum_closed)

lemma MakeCSR_empty:
  "num_nodes_B b = 1 \<Longrightarrow> MakeCSR b [] transpose' = ([0, 0], [])"
  by (simp add: MakeCSR_def CountDegrees_def ParallelPrefixSum_single GenIndex_def)

text \<open>
  Claim C7, as the code has it. With the node count not supplied, \<^verbatim>\<open>FindMaxNodeID\<close>
  returns its initial 0 for the empty edge list, so the node count becomes 1: the built
  graph has one node and no edge. The degree array has the single cell 0, the offset and
  index arrays are \<open>[0, 0]\<close>, and the neighbor array is empty.
\<close>

theorem MakeGraphFromEL_empty:
  "num_nodes_B b = - 1 \<Longrightarrow>
   FindMaxNodeID [] = 0 \<and>
   fst (MakeGraphFromEL b []) = b\<lparr>num_nodes_B := 1\<rparr> \<and>
   CountDegrees (fst (MakeGraphFromEL b [])) [] False = [0] \<and>
   snd (MakeGraphFromEL b []) =
     (if symmetrize b then CSRGraph_undirected 1 [0, 0] []
      else if invert b then CSRGraph_directed 1 [0, 0] [] (Ptr [0, 0]) (Ptr [])
      else CSRGraph_directed 1 [0, 0] [] Nullptr Nullptr)"
  by (simp add: MakeGraphFromEL_def FindMaxNodeID_def MakeCSR_empty CountDegrees_def Let_def)

theorem MakeGraphFromEL_empty_witness:
  "num_nodes_B \<lparr>symmetrize = True, num_nodes_B = - 1, invert = True\<rparr> = - 1 \<and>
   snd (MakeGraphFromEL \<lparr>symmetrize = True, num_nodes_B = - 1, invert = True\<rparr> []) =
     CSRGraph_undirected 1 [0, 0] []"
  using MakeGraphFromEL_empty [of "\<lparr>symmetrize = True, num_nodes_B = - 1, invert = True\<rparr>"]
  by simp

theorem MakeGraphFromEL_empty_counterexample:
  "num_nodes (snd (MakeGraphFromEL \<lparr>symmetrize = True, num_nodes_B = - 1, invert = True\<rparr> [])) \<noteq> 0 \<and>
   length (CountDegrees (fst (MakeGraphFromEL \<lparr>symmetrize = True, num_nodes_B = - 1, invert = True\<rparr> []))
             [] False) \<noteq> 0 \<and>
   length (out_index (snd (MakeGraphFromEL \<lparr>symmetrize = True, num_nodes_B = - 1, invert = True\<rparr> []))) \<noteq> 0"
  by (simp add: MakeGraphFromEL_def FindMaxNodeID_def MakeCSR_empty CountDegrees_def Let_def
      CSRGraph_undirected_def)

section \<open>The reverse pair of a squished directed graph\<close>

lemma SquishCSR_out_Some:
  "\<exists>neighs sq_index sq_neighs.
     SquishCSR g False = Some (g\<lparr>out_neighs := neighs\<rparr>, sq_index, sq_neighs)"
  by (auto simp add: SquishCSR_def side_def store_side_def Let_def split: prod.split)

lemma SquishCSR_in_None:
  "side g True = None \<Longrightarrow> SquishCSR g True = None"
  by (simp add: SquishCSR_def)

lemma SquishCSR_in_Some:
  "side g True = Some p \<Longrightarrow> \<exists>g' sq_index sq_neighs. SquishCSR g True = Some (g', sq_index, sq_neighs)"
  by (cases p) (simp add: SquishCSR_def Let_def split: prod.split)

text \<open>
  Claim C10. For a directed graph, \<^verbatim>\<open>SquishGraph\<close> with \<^verbatim>\<open>invert\<close> false returns a graph
  whose \<^verbatim>\<open>in_index\<close> and \<^verbatim>\<open>in_neighs\<close> are the two local pointers that were never
  assigned. With \<^verbatim>\<open>invert\<close> true both are assigned by the second \<^verbatim>\<open>SquishCSR\<close>, provided
  the argument has an incoming pair to squish; without one there is no result.
\<close>

theorem SquishGraph_reverse_pair:
  "directed g \<Longrightarrow>
   (\<not> invert b \<longrightarrow>
      (\<exists>g'. SquishGraph b g = Some g' \<and> directed g' \<and>
            in_index g' = Unassigned \<and> in_neighs g' = Unassigned)) \<and>
   (invert b \<longrightarrow>
      (case SquishGraph b g of
         None \<Rightarrow> side g True = None
       | Some g' \<Rightarrow> directed g' \<and> (\<exists>index neighs. in_index g' = Ptr index \<and> in_neighs g' = Ptr neighs)))"
proof -
  assume dir: "directed g"
  obtain neighs sq_index sq_neighs
    where out: "SquishCSR g False = Some (g\<lparr>out_neighs := neighs\<rparr>, sq_index, sq_neighs)"
    using SquishCSR_out_Some by blast
  let ?g = "g\<lparr>out_neighs := neighs\<rparr>"
  have side: "side ?g True = side g True" by (simp add: side_def)
  show ?thesis
  proof (cases "invert b")
    case False
    with dir out show ?thesis
      by (simp add: SquishGraph_def CSRGraph_directed_def)
  next
    case True
    show ?thesis
    proof (cases "side g True")
      case None
      with side have "SquishCSR ?g True = None" by (simp add: SquishCSR_in_None)
      with dir out True None show ?thesis by (simp add: SquishGraph_def)
    next
      case (Some p)
      with side obtain g' ix ns where "SquishCSR ?g True = Some (g', ix, ns)"
        using SquishCSR_in_Some [of ?g p] by auto
      with dir out True show ?thesis
        by (simp add: SquishGraph_def CSRGraph_directed_def)
    qed
  qed
qed

theorem SquishGraph_reverse_pair_witness:
  "directed (CSRGraph_directed 0 [0] [] (Ptr [0]) (Ptr [])) \<and>
   SquishGraph \<lparr>symmetrize = False, num_nodes_B = 0, invert = False\<rparr>
     (CSRGraph_directed 0 [0] [] (Ptr [0]) (Ptr [])) =
     Some (CSRGraph_directed 0 [0] [] Unassigned Unassigned) \<and>
   SquishGraph \<lparr>symmetrize = False, num_nodes_B = 0, invert = True\<rparr>
     (CSRGraph_directed 0 [0] [] (Ptr [0]) (Ptr [])) =
     Some (CSRGraph_directed 0 [0] [] (Ptr [0]) (Ptr []))"
  using SquishGraph_reverse_pair [of "CSRGraph_directed 0 [0] [] (Ptr [0]) (Ptr [])"
          "\<lparr>symmetrize = False, num_nodes_B = 0, invert = False\<rparr>"]
  by (simp add: CSRGraph_directed_def SquishGraph_def SquishCSR_def side_def store_side_def
      ParallelPrefixSum_closed GenIndex_def)

section \<open>Bucket iterators across chunks\<close>

text \<open>
  Claim C8 does not hold of the code. In the bucket with the chunks \<open>[10, 20]\<close> and
  \<open>[30, 40]\<close>, the iterator at position 0 is before the iterator at position 1 of the same
  chunk, yet \<^verbatim>\<open>operator<\<close> answers false for them, and it answers true for an iterator
  and itself: within one chunk it compares the offsets for equality. The iterator at
  position 1 is two positions before the iterator at position 3 of the next chunk, yet
  \<^verbatim>\<open>operator-\<close> returns 2 for them and not \<open>-2\<close>: across chunks it returns the distance
  without its sign. In the same bucket the difference of two iterators of one chunk is
  signed, the end is 4 positions after the beginning, and \<^verbatim>\<open>operator+=\<close> takes the iterator
  at position 1 by 2 to the iterator at position 3 of the next chunk.
\<close>

theorem iterator_comparison_and_difference_at_failing_input:
  "position [[10, 20], [30, 40 :: int]] \<lparr>chunk_index = 0, chunk_offset = 0\<rparr> = 0 \<and>
   position [[10, 20], [30, 40 :: int]] \<lparr>chunk_index = 0, chunk_offset = 1\<rparr> = 1 \<and>
   operator_less \<lparr>chunk_index = 0, chunk_offset = 0\<rparr> \<lparr>chunk_index = 0, chunk_offset = 1\<rparr> = False \<and>
   operator_less \<lparr>chunk_index = 0, chunk_offset = 0\<rparr> \<lparr>chunk_index = 0, chunk_offset = 0\<rparr> = True \<and>
   position [[10, 20], [30, 40 :: int]] \<lparr>chunk_index = 1, chunk_offset = 1\<rparr> = 3 \<and>
   operator_minus [[10, 20], [30, 40 :: int]]
     \<lparr>chunk_index = 0, chunk_offset = 1\<rparr> \<lparr>chunk_index = 1, chunk_offset = 1\<rparr> = 2 \<and>
   operator_minus [[10, 20], [30, 40 :: int]]
     \<lparr>chunk_index = 1, chunk_offset = 1\<rparr> \<lparr>chunk_index = 0, chunk_offset = 1\<rparr> = 2 \<and>
   operator_minus [[10, 20], [30, 40 :: int]]
     \<lparr>chunk_index = 0, chunk_offset = 0\<rparr> \<lparr>chunk_index = 0, chunk_offset = 1\<rparr> = - 1 \<and>
   operator_minus [[10, 20], [30, 40 :: int]]
     (end_it [[10, 20], [30, 40 :: int]]) (begin_it [[10, 20], [30, 40 :: int]]) = 4 \<and>
   operator_plus_eq [[10, 20], [30, 40 :: int]] \<lparr>chunk_index = 0, chunk_offset = 1\<rparr> 2 =
     \<lparr>chunk_index = 1, chunk_offset = 1\<rparr>"
  by (simp add: position_def operator_less_def operator_minus_def minus_up.simps
      minus_down.simps chunk_size_def chunks_size_def begin_it_def end_it_def
      operator_plus_eq.simps [of _ _ 2] operator_plus_eq.simps [of _ _ 1]
      operator_plus_eq.simps [of _ _ 0] word_less_nat_alt word_le_nat_alt)

section \<open>Slices and writes into an array\<close>

lemma ParallelPrefixSum_eq_PrefixSum: "ParallelPrefixSum d = PrefixSum d"
  by (simp only: ParallelPrefixSum_closed PrefixSum_closed)

lemma cells_length: "nat hi \<le> length arr \<Longrightarrow> length (cells arr lo hi) = nat hi - nat lo"
  by (simp add: cells_def)

lemma cells_nth:
  "nat hi \<le> length arr \<Longrightarrow> j < nat hi - nat lo \<Longrightarrow> cells arr lo hi ! j = arr ! (nat lo + j)"
  by (simp add: cells_def)

lemma cells_cong:
  assumes "length a = length b" and "nat hi \<le> length a"
    and "\<And>i. nat lo \<le> i \<Longrightarrow> i < nat hi \<Longrightarrow> a ! i = b ! i"
  shows "cells a lo hi = cells b lo hi"
proof (rule nth_equalityI)
  show "length (cells a lo hi) = length (cells b lo hi)"
    using assms(1,2) by (simp add: cells_length)
next
  fix j assume "j < length (cells a lo hi)"
  with assms(2) have j: "j < nat hi - nat lo" by (simp add: cells_length)
  with assms show "cells a lo hi ! j = cells b lo hi ! j"
    by (simp add: cells_nth)
qed

lemma overwrite_length:
  "nat lo + length xs \<le> length arr \<Longrightarrow> length (overwrite arr lo xs) = length arr"
  by (simp add: overwrite_def)

lemma overwrite_nth:
  assumes "nat lo + length xs \<le> length arr" and "i < length arr"
  shows "overwrite arr lo xs ! i =
           (if nat lo \<le> i \<and> i < nat lo + length xs then xs ! (i - nat lo) else arr ! i)"
  using assms by (auto simp: overwrite_def nth_append min_def)

lemma cells_overwrite_same:
  assumes "0 \<le> lo" and "nat lo + length xs \<le> length arr"
  shows "cells (overwrite arr lo xs) lo (lo + int (length xs)) = xs"
proof (rule nth_equalityI)
  from assms have hi: "nat (lo + int (length xs)) = nat lo + length xs" by (simp add: nat_add_distrib)
  with assms show len: "length (cells (overwrite arr lo xs) lo (lo + int (length xs))) = length xs"
    by (simp add: cells_length overwrite_length)
  fix j assume "j < length (cells (overwrite arr lo xs) lo (lo + int (length xs)))"
  with len have j: "j < length xs" by simp
  with assms hi show "cells (overwrite arr lo xs) lo (lo + int (length xs)) ! j = xs ! j"
    by (simp add: cells_nth overwrite_length overwrite_nth)
qed

lemma cells_overwrite_prefix:
  assumes "0 \<le> lo" and "nat lo + length xs \<le> length arr" and "k \<le> length xs"
  shows "cells (overwrite arr lo xs) lo (lo + int k) = take k xs"
proof (rule nth_equalityI)
  from assms have hi: "nat (lo + int k) = nat lo + k" by (simp add: nat_add_distrib)
  with assms show len: "length (cells (overwrite arr lo xs) lo (lo + int k)) = length (take k xs)"
    by (simp add: cells_length overwrite_length)
  fix j assume "j < length (cells (overwrite arr lo xs) lo (lo + int k))"
  with len assms have j: "j < k" by simp
  with assms hi show "cells (overwrite arr lo xs) lo (lo + int k) ! j = take k xs ! j"
    by (simp add: cells_nth overwrite_length overwrite_nth)
qed

lemma overwrite_overwrite:
  assumes "length ys \<le> length xs" and "nat lo + length xs \<le> length arr"
  shows "overwrite (overwrite arr lo xs) lo ys = overwrite arr lo (ys @ drop (length ys) xs)"
proof (rule nth_equalityI)
  from assms show len: "length (overwrite (overwrite arr lo xs) lo ys) =
                   length (overwrite arr lo (ys @ drop (length ys) xs))"
    by (simp add: overwrite_length)
  fix i assume "i < length (overwrite (overwrite arr lo xs) lo ys)"
  with assms have i: "i < length arr" by (simp add: overwrite_length)
  with assms show "overwrite (overwrite arr lo xs) lo ys ! i =
                   overwrite arr lo (ys @ drop (length ys) xs) ! i"
    by (auto simp: overwrite_nth overwrite_length nth_append)
qed


section \<open>The squish pass\<close>

lemma clean_cells:
  assumes lo: "0 \<le> lo" and le: "lo \<le> hi" and hi: "nat hi \<le> length arr"
  shows "\<exists>T. length T = nat hi - nat lo \<and>
             take (length (removeAll x (remdups_adj (sort (cells arr lo hi))))) T =
               removeAll x (remdups_adj (sort (cells arr lo hi))) \<and>
             (let arr1 = std_sort arr lo hi;
                  (arr2, new_end) = std_unique arr1 lo hi;
                  (arr3, new_end) = std_remove arr2 lo new_end x
              in (arr3, new_end - lo)) =
               (overwrite arr lo T,
                int (length (removeAll x (remdups_adj (sort (cells arr lo hi))))))"
proof -
  let ?S = "cells arr lo hi"
  let ?s = "sort ?S"
  let ?k = "remdups_adj ?s"
  let ?r = "removeAll x ?k"
  let ?T2 = "?k @ drop (length ?k) ?s"
  let ?T = "?r @ drop (length ?r) ?T2"
  have lenS: "length ?S = nat hi - nat lo" using hi by (simp add: cells_length)
  have his: "lo + int (length ?s) = hi" using lo le lenS by simp
  have fit: "nat lo + length ?s \<le> length arr" using lo le hi lenS by simp
  have lenk: "length ?k \<le> length ?s" by (rule remdups_adj_length)
  have lenr: "length ?r \<le> length ?k" by (rule length_removeAll_less_eq)
  have lenT2: "length ?T2 = length ?s" using lenk by simp
  from lenr lenk have lenrs: "length ?r \<le> length ?s" by (rule order_trans)
  have "length ?T = length ?r + (length ?T2 - length ?r)" by simp
  with lenrs lenT2 have lenT: "length ?T = length ?s" by linarith
  have sort: "std_sort arr lo hi = overwrite arr lo ?s"
    by (simp add: std_sort_def)
  have s1: "cells (overwrite arr lo ?s) lo hi = ?s"
    using cells_overwrite_same [OF lo fit] unfolding his .
  have uniq: "std_unique (overwrite arr lo ?s) lo hi =
                (overwrite arr lo ?T2, lo + int (length ?k))"
    unfolding std_unique_def Let_def s1 overwrite_overwrite [OF lenk fit] ..
  have fit2: "nat lo + length ?T2 \<le> length arr" using fit lenT2 by simp
  have s2: "cells (overwrite arr lo ?T2) lo (lo + int (length ?k)) = ?k"
    using cells_overwrite_prefix [OF lo fit2, of "length ?k"] lenk by simp
  have lenr2: "length ?r \<le> length ?T2" using lenrs lenT2 by linarith
  have rem: "std_remove (overwrite arr lo ?T2) lo (lo + int (length ?k)) x =
               (overwrite arr lo ?T, lo + int (length ?r))"
    unfolding std_remove_def Let_def s2 overwrite_overwrite [OF lenr2 fit2] ..
  have "(let arr1 = std_sort arr lo hi;
             (arr2, new_end) = std_unique arr1 lo hi;
             (arr3, new_end) = std_remove arr2 lo new_end x
         in (arr3, new_end - lo)) = (overwrite arr lo ?T, int (length ?r))"
    unfolding Let_def sort uniq prod.case rem by simp
  moreover have "length ?T = nat hi - nat lo" using lenT lenS by simp
  moreover have "take (length ?r) ?T = ?r" by simp
  ultimately show ?thesis by blast
qed

lemma clean_effect:
  assumes lo: "0 \<le> index ! n" and le: "index ! n \<le> index ! (n + 1)"
    and hi: "nat (index ! (n + 1)) \<le> length arr"
  shows "\<exists>T. length T = nat (index ! (n + 1)) - nat (index ! n) \<and>
             take (length (cleaned n (cells arr (index ! n) (index ! (n + 1))))) T =
               cleaned n (cells arr (index ! n) (index ! (n + 1))) \<and>
             clean index n (arr, diffs) =
               (overwrite arr (index ! n) T,
                diffs[n := int (length (cleaned n (cells arr (index ! n) (index ! (n + 1)))))])"
proof -
  from clean_cells [OF lo le hi, of "int n"] obtain T where
    T: "length T = nat (index ! (n + 1)) - nat (index ! n)"
       "take (length (cleaned n (cells arr (index ! n) (index ! (n + 1))))) T =
          cleaned n (cells arr (index ! n) (index ! (n + 1)))"
    and run: "(let arr1 = std_sort arr (index ! n) (index ! (n + 1));
                  (arr2, new_end) = std_unique arr1 (index ! n) (index ! (n + 1));
                  (arr3, new_end) = std_remove arr2 (index ! n) new_end (int n)
              in (arr3, new_end - index ! n)) =
               (overwrite arr (index ! n) T,
                int (length (cleaned n (cells arr (index ! n) (index ! (n + 1))))))"
    unfolding cleaned_def by blast
  have "clean index n (arr, diffs) =
          (\<lambda>(arr3, d). (arr3, diffs[n := d]))
            (let arr1 = std_sort arr (index ! n) (index ! (n + 1));
                  (arr2, new_end) = std_unique arr1 (index ! n) (index ! (n + 1));
                  (arr3, new_end) = std_remove arr2 (index ! n) new_end (int n)
              in (arr3, new_end - index ! n))"
    by (simp add: clean_def Let_def split: prod.split)
  with run have "clean index n (arr, diffs) =
                   (overwrite arr (index ! n) T,
                    diffs[n := int (length (cleaned n (cells arr (index ! n) (index ! (n + 1)))))])"
    by simp
  with T show ?thesis by blast
qed

text \<open>Node \<open>n\<close>'s cells of a pair before the pass, cleaned.\<close>

lemma csr_pair_bounds:
  assumes "csr_pair N index neighs" and "n \<le> N"
  shows "0 \<le> index ! n" and "nat (index ! n) \<le> length neighs"
    and "n < N \<Longrightarrow> index ! n \<le> index ! (n + 1)"
proof -
  from assms have len: "length index = N + 1" and srt: "sorted index"
    and z: "index ! 0 = 0" and top: "index ! N = int (length neighs)"
    by (simp_all add: csr_pair_def)
  from srt len assms(2) have "index ! 0 \<le> index ! n" by (simp add: sorted_iff_nth_mono)
  with z show "0 \<le> index ! n" by simp
  from srt len assms(2) have "index ! n \<le> index ! N" by (simp add: sorted_iff_nth_mono)
  with top show "nat (index ! n) \<le> length neighs" by simp
  show "n < N \<Longrightarrow> index ! n \<le> index ! (n + 1)"
    using srt len by (simp add: sorted_iff_nth_mono)
qed

lemma csr_pair_mono:
  assumes "csr_pair N index neighs" and "m \<le> n" and "n \<le> N"
  shows "nat (index ! m) \<le> nat (index ! n)"
proof -
  from assms have "index ! m \<le> index ! n"
    by (simp add: csr_pair_def sorted_iff_nth_mono)
  then show ?thesis by simp
qed

lemma clean_loop:
  assumes pair: "csr_pair N index neighs" and k: "k \<le> N"
  shows "\<exists>arr diffs.
           fold (clean index) [0..<k] (neighs, replicate N 0) = (arr, diffs) \<and>
           length arr = length neighs \<and> length diffs = N \<and>
           (\<forall>i < length neighs. nat (index ! k) \<le> i \<longrightarrow> arr ! i = neighs ! i) \<and>
           (\<forall>n < k. diffs ! n = int (length (cleaned n (neigh index neighs n))) \<and>
                    cells arr (index ! n) (index ! n + diffs ! n) = cleaned n (neigh index neighs n))"
  using k
proof (induction k)
  case 0
  then show ?case by simp
next
  case (Suc k)
  then have kN: "k < N" by simp
  with Suc.IH obtain arr diffs where
    run: "fold (clean index) [0..<k] (neighs, replicate N 0) = (arr, diffs)" and
    la: "length arr = length neighs" and ld: "length diffs = N" and
    rest: "\<forall>i < length neighs. nat (index ! k) \<le> i \<longrightarrow> arr ! i = neighs ! i" and
    prev: "\<forall>n < k. diffs ! n = int (length (cleaned n (neigh index neighs n))) \<and>
                    cells arr (index ! n) (index ! n + diffs ! n) = cleaned n (neigh index neighs n)"
    by auto
  let ?lo = "index ! k" and ?hi = "index ! (k + 1)"
  have lo: "0 \<le> ?lo" and le: "?lo \<le> ?hi" and hi: "nat ?hi \<le> length arr"
    using csr_pair_bounds [OF pair, of k] csr_pair_bounds [OF pair, of "k + 1"] kN la by simp_all
  have same: "cells arr ?lo ?hi = neigh index neighs k"
    unfolding neigh_def using la hi rest by (intro cells_cong) simp_all
  let ?c = "cleaned k (neigh index neighs k)"
  from clean_effect [OF lo le hi, of diffs] same obtain T where
    lT: "length T = nat ?hi - nat ?lo" and tT: "take (length ?c) T = ?c" and
    cl: "clean index k (arr, diffs) = (overwrite arr ?lo T, diffs[k := int (length ?c)])"
    by auto
  have fit: "nat ?lo + length T \<le> length arr" using lT lo le hi by simp
  from tT have "min (length T) (length ?c) = length ?c" by (metis length_take)
  then have lc: "length ?c \<le> length T" by linarith
  let ?arr = "overwrite arr ?lo T" and ?diffs = "diffs[k := int (length ?c)]"
  have 1: "fold (clean index) [0..<Suc k] (neighs, replicate N 0) = (?arr, ?diffs)"
    using run cl by simp
  have 2: "length ?arr = length neighs" using fit la by (simp add: overwrite_length)
  have 3: "length ?diffs = N" using ld by simp
  have 4: "\<forall>i < length neighs. nat (index ! Suc k) \<le> i \<longrightarrow> ?arr ! i = neighs ! i"
  proof (intro allI impI)
    fix i assume i: "i < length neighs" "nat (index ! Suc k) \<le> i"
    with lT lo le have "\<not> i < nat ?lo + length T" by simp
    moreover from i le lo have "nat ?lo \<le> i" by simp
    ultimately show "?arr ! i = neighs ! i"
      using fit la i rest by (simp add: overwrite_nth)
  qed
  have 5: "?diffs ! n = int (length (cleaned n (neigh index neighs n))) \<and>
           cells ?arr (index ! n) (index ! n + ?diffs ! n) = cleaned n (neigh index neighs n)"
    if n: "n < Suc k" for n
  proof (cases "n = k")
    case True
    have "cells ?arr ?lo (?lo + int (length ?c)) = take (length ?c) T"
      using lo fit lc by (rule cells_overwrite_prefix)
    with True tT ld kN show ?thesis by simp
  next
    case False
    with n have nk: "n < k" by simp
    with prev have dn: "diffs ! n = int (length (cleaned n (neigh index neighs n)))"
      and sn: "cells arr (index ! n) (index ! n + diffs ! n) = cleaned n (neigh index neighs n)"
      by blast+
    have "length (cleaned n (neigh index neighs n)) \<le> length (neigh index neighs n)"
      unfolding cleaned_def
      by (metis length_removeAll_less_eq remdups_adj_length length_sort order_trans)
    also have "\<dots> = nat (index ! (n + 1)) - nat (index ! n)"
      unfolding neigh_def using csr_pair_bounds(2) [OF pair, of "n + 1"] nk kN
      by (simp add: cells_length)
    finally have room: "nat (index ! n + diffs ! n) \<le> nat (index ! (n + 1))"
      using dn csr_pair_bounds(1,3) [OF pair, of n] nk kN by simp
    have up: "nat (index ! (n + 1)) \<le> nat ?lo"
      using csr_pair_mono [OF pair, of "n + 1" k] nk kN by simp
    have "cells ?arr (index ! n) (index ! n + diffs ! n) = cells arr (index ! n) (index ! n + diffs ! n)"
    proof (rule cells_cong)
      show "length ?arr = length arr" using fit by (simp add: overwrite_length)
      show "nat (index ! n + diffs ! n) \<le> length ?arr"
        using room up lo hi le fit by (simp add: overwrite_length)
      fix i assume "nat (index ! n) \<le> i" "i < nat (index ! n + diffs ! n)"
      with room up have "i < nat ?lo" by simp
      moreover from this hi le lo have "i < length arr" by simp
      ultimately show "?arr ! i = arr ! i" using fit by (simp add: overwrite_nth)
    qed
    with False dn sn show ?thesis by simp
  qed
  from 1 2 3 4 5 show ?case by blast
qed


lemma copy_loop:
  assumes pair: "csr_pair N sq_index sq0"
    and step: "\<And>n. n < N \<Longrightarrow> sq_index ! (n + 1) = sq_index ! n + int (length (C n))"
    and k: "k \<le> N"
  shows "length (fold (\<lambda>n sq. overwrite sq (sq_index ! n) (C n)) [0..<k] sq0) = length sq0 \<and>
         (\<forall>n < k. neigh sq_index (fold (\<lambda>n sq. overwrite sq (sq_index ! n) (C n)) [0..<k] sq0) n
                    = C n)"
  using k
proof (induction k)
  case 0
  then show ?case by simp
next
  case (Suc k)
  let ?sq = "fold (\<lambda>n sq. overwrite sq (sq_index ! n) (C n)) [0..<k] sq0"
  let ?lo = "sq_index ! k"
  from Suc have kN: "k < N" and len: "length ?sq = length sq0"
    and prev: "\<forall>n < k. neigh sq_index ?sq n = C n" by simp_all
  have lo: "0 \<le> ?lo" using csr_pair_bounds(1) [OF pair, of k] kN by simp
  have hi: "nat (sq_index ! (k + 1)) \<le> length sq0"
    using csr_pair_bounds(2) [OF pair, of "k + 1"] kN by simp
  have fit: "nat ?lo + length (C k) \<le> length ?sq"
    using hi lo step [OF kN] len by simp
  have unfold: "fold (\<lambda>n sq. overwrite sq (sq_index ! n) (C n)) [0..<Suc k] sq0 =
                overwrite ?sq ?lo (C k)"
    by simp
  have 1: "length (overwrite ?sq ?lo (C k)) = length sq0"
    using fit len by (simp add: overwrite_length)
  have 2: "neigh sq_index (overwrite ?sq ?lo (C k)) n = C n" if n: "n < Suc k" for n
  proof (cases "n = k")
    case True
    have "cells (overwrite ?sq ?lo (C k)) ?lo (?lo + int (length (C k))) = C k"
      using lo fit by (rule cells_overwrite_same)
    with True step [OF kN] show ?thesis by (simp add: neigh_def)
  next
    case False
    with n have nk: "n < k" by simp
    have up: "nat (sq_index ! (n + 1)) \<le> nat ?lo"
      using csr_pair_mono [OF pair, of "n + 1" k] nk kN by simp
    have "cells (overwrite ?sq ?lo (C k)) (sq_index ! n) (sq_index ! (n + 1)) =
          cells ?sq (sq_index ! n) (sq_index ! (n + 1))"
    proof (rule cells_cong)
      show "length (overwrite ?sq ?lo (C k)) = length ?sq" using 1 len by simp
      show "nat (sq_index ! (n + 1)) \<le> length (overwrite ?sq ?lo (C k))"
        using up fit 1 len by simp
      fix i assume "nat (sq_index ! n) \<le> i" "i < nat (sq_index ! (n + 1))"
      with up have "i < nat ?lo" by simp
      moreover from this fit have "i < length ?sq" by simp
      ultimately show "overwrite ?sq ?lo (C k) ! i = ?sq ! i"
        using fit by (simp add: overwrite_nth)
    qed
    with prev nk show ?thesis by (simp add: neigh_def)
  qed
  from 1 2 show ?case unfolding unfold by blast
qed

lemma distinct_remdups_adj_sorted: "sorted xs \<Longrightarrow> distinct (remdups_adj xs)"
  by (induct xs rule: remdups_adj.induct) auto

lemma cleaned_props:
  "sorted_wrt (<) (cleaned n xs)" "distinct (cleaned n xs)" "int n \<notin> set (cleaned n xs)"
  "length (cleaned n xs) \<le> length xs" "set (cleaned n xs) = set xs - {int n}"
proof -
  have s: "sorted (cleaned n xs)"
    unfolding cleaned_def removeAll_filter_not_eq by (intro sorted_wrt_filter) simp
  have d: "distinct (cleaned n xs)"
    unfolding cleaned_def by (intro distinct_removeAll distinct_remdups_adj_sorted) simp
  from s d show "sorted_wrt (<) (cleaned n xs)" by (simp add: strict_sorted_iff)
  from d show "distinct (cleaned n xs)" .
  show "int n \<notin> set (cleaned n xs)" by (simp add: cleaned_def)
  show "length (cleaned n xs) \<le> length xs"
    unfolding cleaned_def
    by (metis length_removeAll_less_eq remdups_adj_length length_sort order_trans)
  show "set (cleaned n xs) = set xs - {int n}" by (simp add: cleaned_def)
qed

lemma PrefixSum_csr_pair:
  assumes "\<forall>x \<in> set d. 0 \<le> x"
  shows "csr_pair (length d) (PrefixSum d) (replicate (nat (PrefixSum d ! length d)) x)"
proof -
  have "0 \<le> sum ((!) d) {0..<length d}"
    using assms by (intro sum_nonneg) simp
  then have "0 \<le> PrefixSum d ! length d"
    by (simp add: PrefixSum_nth)
  then show ?thesis
    using assms by (simp add: csr_pair_def PrefixSum_length PrefixSum_sorted PrefixSum_nth)
qed

lemma SquishCSR_result:
  assumes side: "side g transpose' = Some (index, neighs)"
    and N: "0 \<le> num_nodes g"
    and pair: "csr_pair (nat (num_nodes g)) index neighs"
  shows "\<exists>arr sq_index sq_neighs.
           SquishCSR g transpose' = Some (store_side g transpose' arr, sq_index, sq_neighs) \<and>
           csr_pair (nat (num_nodes g)) sq_index sq_neighs \<and>
           (\<forall>n < nat (num_nodes g). neigh sq_index sq_neighs n = cleaned n (neigh index neighs n))"
proof -
  let ?N = "nat (num_nodes g)"
  let ?C = "\<lambda>n. cleaned n (neigh index neighs n)"
  from clean_loop [OF pair order_refl] obtain arr diffs where
    run: "fold (clean index) [0..<?N] (neighs, replicate ?N 0) = (arr, diffs)" and
    ld: "length diffs = ?N" and
    prev: "\<forall>n < ?N. diffs ! n = int (length (?C n)) \<and>
                      cells arr (index ! n) (index ! n + diffs ! n) = ?C n"
    by blast
  have nonneg: "\<forall>x \<in> set diffs. 0 \<le> x"
    using prev ld by (auto simp: in_set_conv_nth)
  let ?sqi = "PrefixSum diffs"
  let ?init = "replicate (nat (?sqi ! ?N)) (0::int)"
  have pair0: "csr_pair ?N ?sqi ?init"
    using PrefixSum_csr_pair [OF nonneg, of 0] ld by simp
  have step: "?sqi ! (n + 1) = ?sqi ! n + int (length (?C n))" if "n < ?N" for n
    using that prev ld PrefixSum_Suc [of n diffs] by simp
  let ?sq = "fold (\<lambda>n sq. overwrite sq (?sqi ! n) (?C n)) [0..<?N] ?init"
  have copy: "fold (\<lambda>n sq_neighs. std_copy arr (index ! n) (index ! n + diffs ! n) sq_neighs
                           (?sqi ! n)) [0..<?N] ?init = ?sq"
  proof (rule fold_cong [OF refl refl])
    fix n assume "n \<in> set [0..<?N]"
    then have "n < ?N" by simp
    with prev have "cells arr (index ! n) (index ! n + diffs ! n) = ?C n" by blast
    then show "(\<lambda>sq_neighs. std_copy arr (index ! n) (index ! n + diffs ! n) sq_neighs
                           (?sqi ! n)) = (\<lambda>sq. overwrite sq (?sqi ! n) (?C n))"
      by (simp add: std_copy_def)
  qed
  from copy_loop [OF pair0 step order_refl]
  have len: "length ?sq = length ?init" and sl: "\<forall>n < ?N. neigh ?sqi ?sq n = ?C n"
    by simp_all
  have res: "SquishCSR g transpose' = Some (store_side g transpose' arr, ?sqi, ?sq)"
    by (simp add: SquishCSR_def side run Let_def ParallelPrefixSum_eq_PrefixSum GenIndex_def copy)
  have "csr_pair ?N ?sqi ?sq"
    using pair0 len by (simp add: csr_pair_def)
  with res sl show ?thesis by blast
qed


lemma csr_pair_degree:
  assumes "csr_pair N index neighs" and "n < N"
  shows "int (length (neigh index neighs n)) = index ! (n + 1) - index ! n"
  using csr_pair_bounds [OF assms(1), of n] csr_pair_bounds [OF assms(1), of "n + 1"] assms(2)
  by (simp add: neigh_def cells_length)

lemma csr_pair_total:
  assumes "csr_pair N index neighs" and "k \<le> N"
  shows "index ! k = (\<Sum>n < k. int (length (neigh index neighs n)))"
  using assms(2)
proof (induction k)
  case 0
  with assms(1) show ?case by (simp add: csr_pair_def)
next
  case (Suc k)
  then have "k < N" by simp
  from csr_pair_degree [OF assms(1) this] Suc show ?case by simp
qed

lemma csr_pair_take:
  assumes "csr_pair N index neighs" and "k \<le> N"
  shows "take (nat (index ! k)) neighs = concat (map (neigh index neighs) [0..<k])"
  using assms(2)
proof (induction k)
  case 0
  with assms(1) show ?case by (simp add: csr_pair_def)
next
  case (Suc k)
  then have kN: "k < N" by simp
  have "nat (index ! (k + 1)) = nat (index ! k) + (nat (index ! (k + 1)) - nat (index ! k))"
    using csr_pair_mono [OF assms(1), of k "k + 1"] kN by simp
  then have "take (nat (index ! (k + 1))) neighs =
             take (nat (index ! k)) neighs @ neigh index neighs k"
    unfolding neigh_def cells_def by (metis take_add)
  with Suc kN show ?case by simp
qed

lemma csr_pair_concat:
  assumes "csr_pair N index neighs"
  shows "neighs = concat (map (neigh index neighs) [0..<N])"
  using csr_pair_take [OF assms order_refl] assms by (simp add: csr_pair_def)

lemma csr_pair_index:
  assumes "csr_pair N index neighs"
  shows "index = PrefixSum (map (\<lambda>n. int (length (neigh index neighs n))) [0..<N])"
proof (rule nth_equalityI)
  from assms show len: "length index =
      length (PrefixSum (map (\<lambda>n. int (length (neigh index neighs n))) [0..<N]))"
    by (simp add: csr_pair_def PrefixSum_length)
  fix k assume "k < length index"
  with assms have k: "k \<le> N" by (simp add: csr_pair_def)
  have "sum ((!) (map (\<lambda>n. int (length (neigh index neighs n))) [0..<N])) {0..<k} =
        (\<Sum>n < k. int (length (neigh index neighs n)))"
    using k by (intro sum.cong) auto
  with k csr_pair_total [OF assms k]
  show "index ! k = PrefixSum (map (\<lambda>n. int (length (neigh index neighs n))) [0..<N]) ! k"
    by (simp add: PrefixSum_nth)
qed

lemma csr_pair_length_le:
  assumes a: "csr_pair N index neighs" and b: "csr_pair N index' neighs'"
    and le: "\<And>n. n < N \<Longrightarrow> length (neigh index' neighs' n) \<le> length (neigh index neighs n)"
  shows "length neighs' \<le> length neighs"
proof -
  have "(\<Sum>n < N. int (length (neigh index' neighs' n))) \<le>
        (\<Sum>n < N. int (length (neigh index neighs n)))"
    by (intro sum_mono) (simp add: le)
  with csr_pair_total [OF a order_refl] csr_pair_total [OF b order_refl] a b
  show ?thesis by (simp add: csr_pair_def)
qed

lemma SquishCSR_squished:
  assumes side: "side g transpose' = Some (index, neighs)"
    and N: "0 \<le> num_nodes g"
    and pair: "csr_pair (nat (num_nodes g)) index neighs"
  shows "\<exists>arr sq_index sq_neighs.
           SquishCSR g transpose' = Some (store_side g transpose' arr, sq_index, sq_neighs) \<and>
           squished (nat (num_nodes g)) sq_index sq_neighs \<and>
           (\<forall>n < nat (num_nodes g). neigh sq_index sq_neighs n = cleaned n (neigh index neighs n)) \<and>
           length sq_neighs \<le> length neighs"
proof -
  from SquishCSR_result [OF assms] obtain arr sq_index sq_neighs where
    res: "SquishCSR g transpose' = Some (store_side g transpose' arr, sq_index, sq_neighs)" and
    sq: "csr_pair (nat (num_nodes g)) sq_index sq_neighs" and
    sl: "\<forall>n < nat (num_nodes g). neigh sq_index sq_neighs n = cleaned n (neigh index neighs n)"
    by blast
  from sq sl have "squished (nat (num_nodes g)) sq_index sq_neighs"
    by (simp add: squished_def cleaned_props)
  moreover have "length sq_neighs \<le> length neighs"
    using pair sq by (rule csr_pair_length_le) (simp add: sl cleaned_props)
  ultimately show ?thesis using res sl by blast
qed

text \<open>
  Claim C4. For a graph whose pairs are CSR adjacencies, \<^verbatim>\<open>SquishGraph\<close> returns a graph
  with the same nodes in which the slice of every node \<open>n\<close> is the old slice sorted, with
  adjacent duplicates and \<open>n\<close> itself removed: it is strictly ascending, has no duplicate
  and does not contain \<open>n\<close>. The neighbor array, whose length is the total degree, is no
  longer than before. The same holds of the incoming pair of a directed graph when the
  builder inverts.
\<close>

theorem SquishGraph_slices:
  "built_graph b g \<Longrightarrow>
   (\<exists>g'. SquishGraph b g = Some g' \<and>
      num_nodes g' = num_nodes g \<and> directed g' = directed g \<and>
      squished (nat (num_nodes g)) (out_index g') (out_neighs g') \<and>
      (\<forall>n < nat (num_nodes g). out_neigh g' n = cleaned n (out_neigh g n)) \<and>
      length (out_neighs g') \<le> length (out_neighs g) \<and>
      (directed g \<and> invert b \<longrightarrow>
         (case (side g True, side g' True) of
            (Some (index, neighs), Some (index', neighs')) \<Rightarrow>
              squished (nat (num_nodes g)) index' neighs' \<and>
              (\<forall>n < nat (num_nodes g). neigh index' neighs' n = cleaned n (neigh index neighs n)) \<and>
              length neighs' \<le> length neighs
          | _ \<Rightarrow> False)))"
proof -
  assume built: "built_graph b g"
  let ?N = "nat (num_nodes g)"
  from built have N: "0 \<le> num_nodes g"
    and out: "csr_pair ?N (out_index g) (out_neighs g)"
    by (simp_all add: built_graph_def)
  have so: "side g False = Some (out_index g, out_neighs g)" by (simp add: side_def)
  from SquishCSR_squished [OF so N out] obtain arr oi on where
    r1: "SquishCSR g False = Some (g\<lparr>out_neighs := arr\<rparr>, oi, on)" and
    q1: "squished ?N oi on" and
    s1: "\<forall>n < ?N. neigh oi on n = cleaned n (neigh (out_index g) (out_neighs g) n)" and
    l1: "length on \<le> length (out_neighs g)"
    by (auto simp: store_side_def)
  let ?g = "g\<lparr>out_neighs := arr\<rparr>"
  show ?thesis
  proof (cases "directed g \<and> invert b")
    case False
    with r1 q1 s1 l1 show ?thesis
      by (auto simp: SquishGraph_def CSRGraph_directed_def CSRGraph_undirected_def out_neigh_def)
  next
    case True
    with built obtain index neighs where
      si: "side g True = Some (index, neighs)" and inp: "csr_pair ?N index neighs"
      by (auto simp: built_graph_def split: option.splits)
    have si': "side ?g True = Some (index, neighs)" using si by (simp add: side_def)
    have N': "0 \<le> num_nodes ?g" and inp': "csr_pair (nat (num_nodes ?g)) index neighs"
      using N inp by simp_all
    from SquishCSR_squished [OF si' N' inp'] obtain arr' ii inn where
      r2: "SquishCSR ?g True = Some (store_side ?g True arr', ii, inn)" and
      q2: "squished ?N ii inn" and
      s2: "\<forall>n < ?N. neigh ii inn n = cleaned n (neigh index neighs n)" and
      l2: "length inn \<le> length neighs"
      by auto
    let ?g' = "CSRGraph_directed (num_nodes g) oi on (Ptr ii) (Ptr inn)"
    have res: "SquishGraph b g = Some ?g'"
      using True r1 r2 by (simp add: SquishGraph_def store_side_def)
    have "side ?g' True = Some (ii, inn)" by (simp add: side_def CSRGraph_directed_def)
    with res q1 s1 l1 q2 s2 l2 si True show ?thesis
      by (simp add: CSRGraph_directed_def out_neigh_def)
  qed
qed

theorem SquishGraph_slices_witness:
  "built_graph \<lparr>symmetrize = True, num_nodes_B = 3, invert = True\<rparr>
     (CSRGraph_undirected 3 [0, 3, 6, 8] [1, 1, 1, 0, 0, 0, 2, 2]) \<and>
   (\<exists>g'. SquishGraph \<lparr>symmetrize = True, num_nodes_B = 3, invert = True\<rparr>
            (CSRGraph_undirected 3 [0, 3, 6, 8] [1, 1, 1, 0, 0, 0, 2, 2]) = Some g' \<and>
         out_neigh g' 0 = [1] \<and> out_neigh g' 1 = [0] \<and> out_neigh g' 2 = [] \<and>
         length (out_neighs g') \<le> 8)"
proof -
  let ?b = "\<lparr>symmetrize = True, num_nodes_B = 3, invert = True\<rparr>"
  let ?g = "CSRGraph_undirected 3 [0, 3, 6, 8] [1, 1, 1, 0, 0, 0, 2, 2]"
  have built: "built_graph ?b ?g"
    by (simp add: built_graph_def csr_pair_def CSRGraph_undirected_def)
  from SquishGraph_slices [OF built] obtain g' where
    res: "SquishGraph ?b ?g = Some g'" and
    sl: "\<forall>n < nat (num_nodes ?g). out_neigh g' n = cleaned n (out_neigh ?g n)" and
    len: "length (out_neighs g') \<le> length (out_neighs ?g)"
    by blast
  have N: "nat (num_nodes ?g) = 3" by (simp add: CSRGraph_undirected_def)
  have "out_neigh g' 0 = cleaned 0 (out_neigh ?g 0)" "out_neigh g' 1 = cleaned 1 (out_neigh ?g 1)"
    "out_neigh g' 2 = cleaned 2 (out_neigh ?g 2)"
    using sl unfolding N by simp_all
  moreover have "cleaned 0 (out_neigh ?g 0) = [1]" "cleaned 1 (out_neigh ?g 1) = [0]"
    "cleaned 2 (out_neigh ?g 2) = []"
    by (simp_all add: cleaned_def out_neigh_def neigh_def cells_def CSRGraph_undirected_def)
  moreover have "length (out_neighs ?g) = 8" by (simp add: CSRGraph_undirected_def)
  ultimately show ?thesis using built res len by simp
qed

section \<open>The end-to-end scenario\<close>

lemma SquishCSR_exact:
  assumes side: "side g transpose' = Some (index, neighs)"
    and N: "0 \<le> num_nodes g"
    and pair: "csr_pair (nat (num_nodes g)) index neighs"
  shows "\<exists>arr. SquishCSR g transpose' =
           Some (store_side g transpose' arr,
                 PrefixSum (map (\<lambda>n. int (length (cleaned n (neigh index neighs n))))
                              [0..<nat (num_nodes g)]),
                 concat (map (\<lambda>n. cleaned n (neigh index neighs n)) [0..<nat (num_nodes g)]))"
proof -
  from SquishCSR_result [OF assms] obtain arr sq_index sq_neighs where
    res: "SquishCSR g transpose' = Some (store_side g transpose' arr, sq_index, sq_neighs)" and
    sq: "csr_pair (nat (num_nodes g)) sq_index sq_neighs" and
    sl: "\<forall>n < nat (num_nodes g). neigh sq_index sq_neighs n = cleaned n (neigh index neighs n)"
    by blast
  from sl have e1: "map (neigh sq_index sq_neighs) [0..<nat (num_nodes g)] =
                map (\<lambda>n. cleaned n (neigh index neighs n)) [0..<nat (num_nodes g)]"
    by simp
  from sl have e2: "map (\<lambda>n. int (length (neigh sq_index sq_neighs n))) [0..<nat (num_nodes g)] =
                map (\<lambda>n. int (length (cleaned n (neigh index neighs n)))) [0..<nat (num_nodes g)]"
    by simp
  have "sq_neighs = concat (map (neigh sq_index sq_neighs) [0..<nat (num_nodes g)])"
    by (rule csr_pair_concat [OF sq])
  then have n: "sq_neighs =
      concat (map (\<lambda>n. cleaned n (neigh index neighs n)) [0..<nat (num_nodes g)])"
    by (simp only: e1)
  have "sq_index = PrefixSum (map (\<lambda>n. int (length (neigh sq_index sq_neighs n)))
                                [0..<nat (num_nodes g)])"
    by (rule csr_pair_index [OF sq])
  then have i: "sq_index = PrefixSum (map (\<lambda>n. int (length (cleaned n (neigh index neighs n))))
                                [0..<nat (num_nodes g)])"
    by (simp only: e2)
  from res show ?thesis unfolding n [symmetric] i [symmetric] by blast
qed

lemma scenario_degrees:
  "CountDegrees \<lparr>symmetrize = True, num_nodes_B = 3, invert = True\<rparr>
     [(0, 1), (1, 0), (0, 1), (2, 2)] False = [3, 3, 2]"
  by (simp add: CountDegrees_def fetch_and_add_def eval_nat_numeral)

lemma scenario_offsets: "ParallelPrefixSum [3, 3, 2] = [0, 3, 6, 8]"
  by (simp add: ParallelPrefixSum_eq_PrefixSum PrefixSum_def)

lemma scenario_scatter:
  "fold (scatter \<lparr>symmetrize = True, num_nodes_B = 3, invert = True\<rparr> False)
     [(0, 1), (1, 0), (0, 1), (2, 2)] ([0, 3, 6, 8], replicate 8 0) =
   ([3, 6, 8, 8], [1, 1, 1, 0, 0, 0, 2, 2])"
  by (simp add: scatter_def place_def fetch_and_add_def GetSource_def eval_nat_numeral)

lemma scenario_MakeCSR:
  "MakeCSR \<lparr>symmetrize = True, num_nodes_B = 3, invert = True\<rparr>
     [(0, 1), (1, 0), (0, 1), (2, 2)] False = ([0, 3, 6, 8], [1, 1, 1, 0, 0, 0, 2, 2])"
proof -
  have n: "replicate (nat ([0, 3, 6, 8] !
               nat (num_nodes_B \<lparr>symmetrize = True, num_nodes_B = 3, invert = True\<rparr>))) (0::int) =
           replicate 8 0"
    by simp
  show ?thesis
    unfolding MakeCSR_def scenario_degrees scenario_offsets GenIndex_def Let_def n scenario_scatter
    by simp
qed

lemma scenario_build:
  "MakeGraphFromEL \<lparr>symmetrize = True, num_nodes_B = - 1, invert = True\<rparr>
     [(0, 1), (1, 0), (0, 1), (2, 2)] =
   (\<lparr>symmetrize = True, num_nodes_B = 3, invert = True\<rparr>,
    CSRGraph_undirected 3 [0, 3, 6, 8] [1, 1, 1, 0, 0, 0, 2, 2])"
proof -
  have "FindMaxNodeID [(0, 1), (1, 0), (0, 1), (2, 2)] = 2"
    by (simp add: FindMaxNodeID_def)
  then show ?thesis
    by (simp add: MakeGraphFromEL_def scenario_MakeCSR)
qed

lemma scenario_squish:
  "SquishGraph b (CSRGraph_undirected 3 [0, 3, 6, 8] [1, 1, 1, 0, 0, 0, 2, 2]) =
     Some (CSRGraph_undirected 3 [0, 1, 2, 2] [1, 0])"
proof -
  let ?g = "CSRGraph_undirected 3 [0, 3, 6, 8] [1, 1, 1, 0, 0, 0, 2, 2]"
  have side: "side ?g False = Some ([0, 3, 6, 8], [1, 1, 1, 0, 0, 0, 2, 2])"
    by (simp add: side_def CSRGraph_undirected_def)
  have N: "0 \<le> num_nodes ?g" and pair: "csr_pair (nat (num_nodes ?g)) [0, 3, 6, 8] [1, 1, 1, 0, 0, 0, 2, 2]"
    by (simp_all add: csr_pair_def CSRGraph_undirected_def)
  have upt: "[0..<nat (num_nodes ?g)] = [0, 1, 2]"
    by (simp add: CSRGraph_undirected_def eval_nat_numeral)
  have c: "cleaned 0 (neigh [0, 3, 6, 8] [1, 1, 1, 0, 0, 0, 2, 2] 0) = [1]"
    "cleaned 1 (neigh [0, 3, 6, 8] [1, 1, 1, 0, 0, 0, 2, 2] 1) = [0]"
    "cleaned 2 (neigh [0, 3, 6, 8] [1, 1, 1, 0, 0, 0, 2, 2] 2) = []"
    by (simp_all add: cleaned_def neigh_def cells_def)
  have p: "PrefixSum [1, 1, 0] = [0, 1, 2, 2]" by (simp add: PrefixSum_def)
  have i: "PrefixSum (map (\<lambda>n. int (length (cleaned n
               (neigh [0, 3, 6, 8] [1, 1, 1, 0, 0, 0, 2, 2] n)))) [0..<nat (num_nodes ?g)]) =
           [0, 1, 2, 2]"
    unfolding upt list.map c using p by simp
  have n: "concat (map (\<lambda>n. cleaned n (neigh [0, 3, 6, 8] [1, 1, 1, 0, 0, 0, 2, 2] n))
             [0..<nat (num_nodes ?g)]) = [1, 0]"
    unfolding upt list.map c by simp
  from SquishCSR_exact [OF side N pair] obtain arr where
    "SquishCSR ?g False = Some (store_side ?g False arr, [0, 1, 2, 2], [1, 0])"
    unfolding i n by blast
  then show ?thesis
    by (simp add: SquishGraph_def store_side_def CSRGraph_undirected_def)
qed

text \<open>
  Claim C9. For the edge list \<open>[(0,1), (1,0), (0,1), (2,2)]\<close> with symmetrize set and the
  node count not supplied, the built and squished graph has 3 nodes; the slice of node 0
  is \<open>[1]\<close>, the slice of node 1 is \<open>[0]\<close>, the slice of node 2 is empty, and the neighbor
  array has length 2.
\<close>

theorem end_to_end_scenario:
  "SquishGraph \<lparr>symmetrize = True, num_nodes_B = - 1, invert = True\<rparr>
     (snd (MakeGraphFromEL \<lparr>symmetrize = True, num_nodes_B = - 1, invert = True\<rparr>
             [(0, 1), (1, 0), (0, 1), (2, 2)])) =
     Some (CSRGraph_undirected 3 [0, 1, 2, 2] [1, 0]) \<and>
   num_nodes (CSRGraph_undirected 3 [0, 1, 2, 2] [1, 0]) = 3 \<and>
   out_neigh (CSRGraph_undirected 3 [0, 1, 2, 2] [1, 0]) 0 = [1] \<and>
   out_neigh (CSRGraph_undirected 3 [0, 1, 2, 2] [1, 0]) 1 = [0] \<and>
   out_neigh (CSRGraph_undirected 3 [0, 1, 2, 2] [1, 0]) 2 = [] \<and>
   length (out_neighs (CSRGraph_undirected 3 [0, 1, 2, 2] [1, 0])) = 2"
  by (simp add: scenario_build scenario_squish)
     (simp add: CSRGraph_undirected_def out_neigh_def neigh_def cells_def)

section \<open>The scatter pass\<close>

text \<open>The scatter loop makes the placements of its edges one after the other.\<close>

lemma scatter_placements:
  "scatter b transpose' e st =
     fold (\<lambda>p st. place st (fst p) (snd p)) (placements b transpose' e) st"
  by (simp add: scatter_def placements_def Let_def)

lemma fold_scatter:
  "fold (scatter b transpose') el st =
     fold (\<lambda>p st. place st (fst p) (snd p)) (concat (map (placements b transpose') el)) st"
  by (induction el arbitrary: st) (simp_all add: scatter_placements)

text \<open>The slots that \<open>slots_of\<close> records are the cells the placements write.\<close>

lemma fold_place_slots:
  "fold (\<lambda>p st. place st (fst p) (snd p)) ps (cur, arr) =
     (fold (\<lambda>p cur. snd (fetch_and_add cur (nat (fst p)) 1)) ps cur,
      fold (\<lambda>(slot, x) arr. arr[nat slot := x]) (zip (slots_of cur ps) (map snd ps)) arr)"
  by (induction ps arbitrary: cur arr) (simp_all add: place_def fetch_and_add_def)

lemma slots_of_length: "length (slots_of cur ps) = length ps"
  by (induction ps arbitrary: cur) (simp_all add: fetch_and_add_def)

text \<open>The values placed for node \<open>n\<close>, in the order of the placements.\<close>

lemma CountDegrees_placements:
  "CountDegrees b el transpose' =
     fold (\<lambda>p degrees. snd (fetch_and_add degrees (nat (fst p)) 1))
       (concat (map (placements b transpose') el)) (replicate (nat (num_nodes_B b)) 0)"
proof -
  have "fold (\<lambda>e degrees.
             let degrees = (if symmetrize b \<or> (\<not> symmetrize b \<and> \<not> transpose')
                            then snd (fetch_and_add degrees (nat (fst e)) 1) else degrees);
                 degrees = (if symmetrize b \<or> (\<not> symmetrize b \<and> transpose')
                            then snd (fetch_and_add degrees (nat (snd e)) 1) else degrees)
             in degrees) el degrees =
        fold (\<lambda>p degrees. snd (fetch_and_add degrees (nat (fst p)) 1))
          (concat (map (placements b transpose') el)) degrees" for degrees
    by (induction el arbitrary: degrees) (simp_all add: placements_def Let_def GetSource_def)
  then show ?thesis by (simp add: CountDegrees_def)
qed

lemma count_fold:
  assumes "\<forall>p \<in> set ps. 0 \<le> fst p \<and> nat (fst p) < length degrees" and "n < length degrees"
  shows "length (fold (\<lambda>p degrees. snd (fetch_and_add degrees (nat (fst p)) 1)) ps degrees) =
           length degrees \<and>
         fold (\<lambda>p degrees. snd (fetch_and_add degrees (nat (fst p)) 1)) ps degrees ! n =
           degrees ! n + int (length (bucket n ps))"
  using assms
proof (induction ps arbitrary: degrees)
  case Nil
  then show ?case by (simp add: bucket_def)
next
  case (Cons p ps)
  let ?d = "snd (fetch_and_add degrees (nat (fst p)) 1)"
  have len: "length ?d = length degrees" by simp
  from Cons.prems have "\<forall>p \<in> set ps. 0 \<le> fst p \<and> nat (fst p) < length ?d" "n < length ?d"
    by simp_all
  from Cons.IH [OF this] Cons.prems show ?case
    by (auto simp: fetch_and_add_def bucket_def nth_list_update)
qed


lemma csr_pair_disjoint:
  assumes "csr_pair N index arr" and "n < N" and "m < N" and "n \<noteq> m"
  shows "index ! (n + 1) \<le> index ! m \<or> index ! (m + 1) \<le> index ! n"
proof (cases "n < m")
  case True
  with assms have "index ! (n + 1) \<le> index ! m"
    by (simp add: csr_pair_def sorted_iff_nth_mono)
  then show ?thesis ..
next
  case False
  with assms have "index ! (m + 1) \<le> index ! n"
    by (simp add: csr_pair_def sorted_iff_nth_mono)
  then show ?thesis ..
qed

lemma bucket_Cons:
  "bucket n (p # ps) = (if fst p = int n then snd p # bucket n ps else bucket n ps)"
  by (simp add: bucket_def)

lemma place_loop:
  assumes pair: "csr_pair N index arr"
    and ps: "\<forall>p \<in> set ps. 0 \<le> fst p \<and> fst p < int N"
    and len: "length cur = N + 1"
    and room: "\<forall>n < N. index ! n \<le> cur ! n \<and>
                        cur ! n + int (length (bucket n ps)) \<le> index ! (n + 1)"
  shows "\<exists>cur' arr'.
           fold (\<lambda>p st. place st (fst p) (snd p)) ps (cur, arr) = (cur', arr') \<and>
           length arr' = length arr \<and>
           (\<forall>n < N. \<forall>j < length (bucket n ps). arr' ! (nat (cur ! n) + j) = bucket n ps ! j) \<and>
           (\<forall>i < length arr.
              (\<forall>n < N. i < nat (cur ! n) \<or> nat (cur ! n) + length (bucket n ps) \<le> i) \<longrightarrow>
              arr' ! i = arr ! i) \<and>
           distinct (slots_of cur ps) \<and>
           (\<forall>s \<in> set (slots_of cur ps).
              \<exists>n < N. cur ! n \<le> s \<and> s < cur ! n + int (length (bucket n ps)))"
  using assms
proof (induction ps arbitrary: cur arr)
  case Nil
  then show ?case by (simp add: bucket_def)
next
  case (Cons p ps)
  obtain pm x where p: "p = (pm, x)" by (cases p)
  define m where "m = nat pm"
  define slot where "slot = cur ! m"
  define cur1 where "cur1 = cur[m := slot + 1]"
  define arr1 where "arr1 = arr[nat slot := x]"
  from Cons.prems(2) p have pm: "0 \<le> pm" "pm = int m" and mN: "m < N"
    by (auto simp: m_def)
  have bm: "bucket m (p # ps) = x # bucket m ps"
    using p pm by (simp add: bucket_Cons)
  have bn: "bucket n (p # ps) = bucket n ps" if "n \<noteq> m" for n
    using p pm that by (simp add: bucket_Cons)
  have pair1: "csr_pair N index arr1"
    using Cons.prems(1) by (simp add: csr_pair_def arr1_def)
  have lo0: "0 \<le> index ! n" if "n \<le> N" for n
    using csr_pair_bounds(1) [OF Cons.prems(1) that] .
  have top: "index ! n \<le> int (length arr)" if "n \<le> N" for n
    using csr_pair_bounds(2) [OF Cons.prems(1) that] lo0 [OF that] by simp
  from Cons.prems(4) mN bm
  have slot_lo: "index ! m \<le> slot" and slot_hi: "slot + 1 + int (length (bucket m ps)) \<le> index ! (m + 1)"
    by (auto simp: slot_def)
  have slot0: "0 \<le> slot" using slot_lo lo0 [of m] mN by simp
  have slot_len: "nat slot < length arr"
    using slot_hi top [of "m + 1"] mN slot0 by simp
  have cur1_m: "cur1 ! m = slot + 1"
    using Cons.prems(3) mN by (simp add: cur1_def)
  have cur1_n: "cur1 ! n = cur ! n" if "n \<noteq> m" for n
    using that by (simp add: cur1_def)
  have room1: "\<forall>n < N. index ! n \<le> cur1 ! n \<and>
                        cur1 ! n + int (length (bucket n ps)) \<le> index ! (n + 1)"
  proof (intro allI impI)
    fix n assume n: "n < N"
    show "index ! n \<le> cur1 ! n \<and> cur1 ! n + int (length (bucket n ps)) \<le> index ! (n + 1)"
    proof (cases "n = m")
      case True
      with slot_lo slot_hi cur1_m show ?thesis by simp
    next
      case False
      from Cons.prems(4) n
      have "index ! n \<le> cur ! n \<and>
            cur ! n + int (length (bucket n (p # ps))) \<le> index ! (n + 1)"
        by blast
      then show ?thesis unfolding bn [OF False] cur1_n [OF False] .
    qed
  qed
  have ps1: "\<forall>p \<in> set ps. 0 \<le> fst p \<and> fst p < int N"
    using Cons.prems(2) by simp
  have len1: "length cur1 = N + 1" using Cons.prems(3) by (simp add: cur1_def)
  from Cons.IH [OF pair1 ps1 len1 room1] obtain cur' arr' where
    run: "fold (\<lambda>p st. place st (fst p) (snd p)) ps (cur1, arr1) = (cur', arr')" and
    la: "length arr' = length arr1" and
    content: "\<forall>n < N. \<forall>j < length (bucket n ps). arr' ! (nat (cur1 ! n) + j) = bucket n ps ! j" and
    outside: "\<forall>i < length arr1.
              (\<forall>n < N. i < nat (cur1 ! n) \<or> nat (cur1 ! n) + length (bucket n ps) \<le> i) \<longrightarrow>
              arr' ! i = arr1 ! i" and
    dist: "distinct (slots_of cur1 ps)" and
    inreg: "\<forall>s \<in> set (slots_of cur1 ps).
              \<exists>n < N. cur1 ! n \<le> s \<and> s < cur1 ! n + int (length (bucket n ps))"
    by blast
  have step: "place (cur, arr) (fst p) (snd p) = (cur1, arr1)"
    using p by (simp add: place_def fetch_and_add_def m_def slot_def cur1_def arr1_def)
  have free: "s < cur1 ! n \<or> cur1 ! n + int (length (bucket n ps)) \<le> s"
    if n: "n < N" and s: "index ! m \<le> s" "s \<le> slot" for n s
  proof (cases "n = m")
    case True
    with cur1_m s show ?thesis by simp
  next
    case False
    from csr_pair_disjoint [OF Cons.prems(1) n mN False] room1 n s slot_hi
    show ?thesis by auto
  qed
  have 1: "fold (\<lambda>p st. place st (fst p) (snd p)) (p # ps) (cur, arr) = (cur', arr')"
    using step run by simp
  have 2: "length arr' = length arr" using la by (simp add: arr1_def)
  have at_slot: "arr' ! nat slot = x"
  proof -
    have "\<forall>n < N. nat slot < nat (cur1 ! n) \<or> nat (cur1 ! n) + length (bucket n ps) \<le> nat slot"
    proof (intro allI impI)
      fix n assume n: "n < N"
      from free [OF n slot_lo order_refl] room1 n lo0 [of n] slot0
      show "nat slot < nat (cur1 ! n) \<or> nat (cur1 ! n) + length (bucket n ps) \<le> nat slot"
        by auto
    qed
    with outside slot_len have "arr' ! nat slot = arr1 ! nat slot" by (simp add: arr1_def)
    with slot_len show ?thesis by (simp add: arr1_def)
  qed
  have 3: "\<forall>n < N. \<forall>j < length (bucket n (p # ps)).
             arr' ! (nat (cur ! n) + j) = bucket n (p # ps) ! j"
  proof (intro allI impI)
    fix n j assume n: "n < N" and j: "j < length (bucket n (p # ps))"
    show "arr' ! (nat (cur ! n) + j) = bucket n (p # ps) ! j"
    proof (cases "n = m")
      case False
      from j have "j < length (bucket n ps)" unfolding bn [OF False] .
      with content n have "arr' ! (nat (cur1 ! n) + j) = bucket n ps ! j" by blast
      then show ?thesis unfolding bn [OF False] cur1_n [OF False] .
    next
      case True
      show ?thesis
      proof (cases j)
        case 0
        with True bm at_slot show ?thesis by (simp add: slot_def)
      next
        case (Suc j')
        with j True bm have "j' < length (bucket m ps)" by simp
        with content mN have "arr' ! (nat (cur1 ! m) + j') = bucket m ps ! j'" by simp
        moreover have "nat (cur1 ! m) + j' = nat (cur ! m) + j"
          using cur1_m slot0 Suc by (simp add: slot_def nat_add_distrib)
        ultimately show ?thesis using True bm Suc by simp
      qed
    qed
  qed
  have 4: "\<forall>i < length arr.
              (\<forall>n < N. i < nat (cur ! n) \<or> nat (cur ! n) + length (bucket n (p # ps)) \<le> i) \<longrightarrow>
              arr' ! i = arr ! i"
  proof (intro allI impI)
    fix i assume i: "i < length arr"
      and out: "\<forall>n < N. i < nat (cur ! n) \<or> nat (cur ! n) + length (bucket n (p # ps)) \<le> i"
    have "\<forall>n < N. i < nat (cur1 ! n) \<or> nat (cur1 ! n) + length (bucket n ps) \<le> i"
    proof (intro allI impI)
      fix n assume n: "n < N"
      show "i < nat (cur1 ! n) \<or> nat (cur1 ! n) + length (bucket n ps) \<le> i"
      proof (cases "n = m")
        case True
        with out mN bm cur1_m slot0 show ?thesis by (auto simp: slot_def)
      next
        case False
        from out n
        have "i < nat (cur ! n) \<or> nat (cur ! n) + length (bucket n (p # ps)) \<le> i" by blast
        then show ?thesis unfolding bn [OF False] cur1_n [OF False] .
      qed
    qed
    with outside i have "arr' ! i = arr1 ! i" by (simp add: arr1_def)
    moreover from out mN bm have "i \<noteq> nat slot" by (auto simp: slot_def)
    ultimately show "arr' ! i = arr ! i" by (simp add: arr1_def)
  qed
  have sl: "slots_of cur (p # ps) = slot # slots_of cur1 ps"
    using p by (simp add: fetch_and_add_def m_def slot_def cur1_def)
  have 5: "distinct (slots_of cur (p # ps))"
  proof -
    have "slot \<notin> set (slots_of cur1 ps)"
    proof
      assume "slot \<in> set (slots_of cur1 ps)"
      with inreg obtain n where n: "n < N"
        and "cur1 ! n \<le> slot" "slot < cur1 ! n + int (length (bucket n ps))"
        by blast
      with free [OF n slot_lo order_refl] show False by simp
    qed
    with dist sl show ?thesis by simp
  qed
  have 6: "\<forall>s \<in> set (slots_of cur (p # ps)).
              \<exists>n < N. cur ! n \<le> s \<and> s < cur ! n + int (length (bucket n (p # ps)))"
  proof
    fix s assume "s \<in> set (slots_of cur (p # ps))"
    with sl consider "s = slot" | "s \<in> set (slots_of cur1 ps)" by auto
    then show "\<exists>n < N. cur ! n \<le> s \<and> s < cur ! n + int (length (bucket n (p # ps)))"
    proof cases
      case 1
      with mN bm show ?thesis by (auto simp: slot_def)
    next
      case 2
      with inreg obtain n where n: "n < N"
        and r: "cur1 ! n \<le> s" "s < cur1 ! n + int (length (bucket n ps))"
        by blast
      show ?thesis
      proof (cases "n = m")
        case True
        with r cur1_m bm mN show ?thesis by (auto simp: slot_def)
      next
        case False
        from r have "cur ! n \<le> s \<and> s < cur ! n + int (length (bucket n (p # ps)))"
          unfolding bn [OF False] cur1_n [OF False] by simp
        with n show ?thesis by blast
      qed
    qed
  qed
  from 1 2 3 4 5 6 show ?case by blast
qed


lemma length_buckets:
  assumes "\<forall>p \<in> set ps. 0 \<le> fst p \<and> fst p < int N"
  shows "length ps = (\<Sum>n < N. length (bucket n ps))"
  using assms
proof (induction ps)
  case Nil
  then show ?case by (simp add: bucket_def)
next
  case (Cons p ps)
  then have m: "nat (fst p) < N" "fst p = int (nat (fst p))" by auto
  have "(\<Sum>n < N. length (bucket n (p # ps))) =
        (\<Sum>n < N. length (bucket n ps) + (if n = nat (fst p) then 1 else 0))"
    using m by (intro sum.cong) (auto simp: bucket_Cons)
  also have "\<dots> = (\<Sum>n < N. length (bucket n ps)) + (\<Sum>n < N. if n = nat (fst p) then 1 else 0)"
    by (rule sum.distrib)
  also have "(\<Sum>n < N. if n = nat (fst p) then 1 else 0) = (1::nat)"
    using m by simp
  finally show ?case using Cons by simp
qed

lemma placements_valid:
  assumes "valid_el b el"
  shows "\<forall>p \<in> set (concat (map (placements b transpose') el)).
           0 \<le> fst p \<and> fst p < int (nat (num_nodes_B b))"
  using assms by (auto simp: valid_el_def placements_def GetSource_def split: if_splits)

text \<open>
  What the scatter pass returns when the placements of the edge list take effect in the
  order \<open>ps\<close>, and what \<^verbatim>\<open>MakeCSR\<close> returns.
\<close>

lemma bucket_mset: "mset ps' = mset ps \<Longrightarrow> mset (bucket n ps') = mset (bucket n ps)"
  by (simp add: bucket_def)

lemma MakeCSR_in_order_result:
  fixes b :: BuilderBase and el :: EdgeList and transpose' :: bool
  assumes valid: "valid_el b el"
    and perm: "mset ps = mset (concat (map (placements b transpose') el))"
  defines "N \<equiv> nat (num_nodes_B b)"
  shows "\<exists>neighs.
           MakeCSR_in_order b el transpose' ps =
             (PrefixSum (CountDegrees b el transpose'), neighs) \<and>
           csr_pair N (PrefixSum (CountDegrees b el transpose')) neighs \<and>
           (\<forall>n < N. neigh (PrefixSum (CountDegrees b el transpose')) neighs n = bucket n ps) \<and>
           distinct (slots_of (PrefixSum (CountDegrees b el transpose')) ps) \<and>
           (\<forall>s \<in> set (slots_of (PrefixSum (CountDegrees b el transpose')) ps).
              0 \<le> s \<and> s < int (length neighs)) \<and>
           length ps = length neighs \<and>
           neighs = fold (\<lambda>(slot, x) arr. arr[nat slot := x])
                      (zip (slots_of (PrefixSum (CountDegrees b el transpose')) ps) (map snd ps))
                      (replicate (length neighs) 0)"
proof -
  let ?all = "concat (map (placements b transpose') el)"
  let ?d = "CountDegrees b el transpose'"
  let ?off = "PrefixSum ?d"
  let ?init = "replicate (nat (?off ! N)) (0::int)"
  have allv: "\<forall>p \<in> set ?all. 0 \<le> fst p \<and> fst p < int N"
    unfolding N_def using valid by (rule placements_valid)
  have "set ps = set ?all" using perm by (rule mset_eq_setD)
  with allv have psv: "\<forall>p \<in> set ps. 0 \<le> fst p \<and> fst p < int N" by simp
  have allv': "\<forall>p \<in> set ?all. 0 \<le> fst p \<and> nat (fst p) < length (replicate N (0::int))"
  proof
    fix p assume "p \<in> set ?all"
    from bspec [OF allv this] have "0 \<le> fst p" and "nat (fst p) < N"
      by linarith+
    then show "0 \<le> fst p \<and> nat (fst p) < length (replicate N (0::int))"
      by simp
  qed
  have blen: "length (bucket n ?all) = length (bucket n ps)" for n
    using bucket_mset [OF perm, of n] by (metis mset_eq_length)
  have dlen: "length ?d = N"
    using valid by (simp add: CountDegrees_length N_def)
  have dn: "?d ! n = int (length (bucket n ps))" if "n < N" for n
    using count_fold [OF allv', of n] that blen [of n]
    by (simp add: CountDegrees_placements N_def)
  have nonneg: "\<forall>x \<in> set ?d. 0 \<le> x"
    using dn dlen by (auto simp: in_set_conv_nth)
  have pair0: "csr_pair N ?off ?init"
    using PrefixSum_csr_pair [OF nonneg, of 0] dlen by simp
  have step: "?off ! (n + 1) = ?off ! n + int (length (bucket n ps))" if "n < N" for n
    using that dn dlen PrefixSum_Suc [of n ?d] by simp
  have room: "\<forall>n < N. ?off ! n \<le> ?off ! n \<and>
                        ?off ! n + int (length (bucket n ps)) \<le> ?off ! (n + 1)"
    using step by simp
  have olen: "length ?off = N + 1" using dlen by (simp add: PrefixSum_length)
  from place_loop [OF pair0 psv olen room] obtain cur' arr' where
    run: "fold (\<lambda>p st. place st (fst p) (snd p)) ps (?off, ?init) = (cur', arr')" and
    la: "length arr' = length ?init" and
    content: "\<forall>n < N. \<forall>j < length (bucket n ps). arr' ! (nat (?off ! n) + j) = bucket n ps ! j" and
    dist: "distinct (slots_of ?off ps)" and
    inreg: "\<forall>s \<in> set (slots_of ?off ps).
              \<exists>n < N. ?off ! n \<le> s \<and> s < ?off ! n + int (length (bucket n ps))"
    by blast
  have pair: "csr_pair N ?off arr'"
    using pair0 la by (simp add: csr_pair_def)
  have res: "MakeCSR_in_order b el transpose' ps = (?off, arr')"
    using run
    by (simp add: MakeCSR_in_order_def Let_def ParallelPrefixSum_eq_PrefixSum GenIndex_def N_def)
  have sl: "neigh ?off arr' n = bucket n ps" if n: "n < N" for n
  proof (rule nth_equalityI)
    have lo: "0 \<le> ?off ! n" and hi: "nat (?off ! (n + 1)) \<le> length arr'"
      using csr_pair_bounds(1) [OF pair, of n] csr_pair_bounds(2) [OF pair, of "n + 1"] n
      by simp_all
    from hi lo step [OF n]
    show len: "length (neigh ?off arr' n) = length (bucket n ps)"
      by (simp add: neigh_def cells_length)
    fix j assume "j < length (neigh ?off arr' n)"
    with len have j: "j < length (bucket n ps)" by simp
    with hi lo step [OF n] have "neigh ?off arr' n ! j = arr' ! (nat (?off ! n) + j)"
      by (simp add: neigh_def cells_nth)
    with content n j show "neigh ?off arr' n ! j = bucket n ps ! j" by simp
  qed
  have bounds: "\<forall>s \<in> set (slots_of ?off ps). 0 \<le> s \<and> s < int (length arr')"
  proof
    fix s assume "s \<in> set (slots_of ?off ps)"
    with inreg obtain n where n: "n < N"
      and r: "?off ! n \<le> s" "s < ?off ! n + int (length (bucket n ps))" by blast
    from csr_pair_bounds(1) [OF pair, of n] n r have "0 \<le> s" by simp
    moreover from n have n1: "n + 1 \<le> N" by simp
    from csr_pair_bounds(1,2) [OF pair n1] r step [OF n]
    have "s < int (length arr')" by simp
    ultimately show "0 \<le> s \<and> s < int (length arr')" ..
  qed
  have total: "length ps = length arr'"
  proof -
    have "int (length ps) = (\<Sum>n < N. int (length (bucket n ps)))"
      using length_buckets [OF psv] by simp
    also have "\<dots> = (\<Sum>n < N. int (length (neigh ?off arr' n)))"
      by (intro sum.cong) (simp_all add: sl)
    also have "\<dots> = ?off ! N"
      using csr_pair_total [OF pair order_refl] by simp
    finally show ?thesis using pair by (simp add: csr_pair_def)
  qed
  have writes: "arr' = fold (\<lambda>(slot, x) arr. arr[nat slot := x])
                         (zip (slots_of ?off ps) (map snd ps)) (replicate (length arr') 0)"
    using run la by (simp add: fold_place_slots)
  from res pair sl dist bounds total writes show ?thesis by blast
qed

lemma MakeCSR_in_list_order:
  "MakeCSR b el transpose' =
     MakeCSR_in_order b el transpose' (concat (map (placements b transpose') el))"
  by (simp add: MakeCSR_def MakeCSR_in_order_def fold_scatter)

lemma MakeCSR_result:
  fixes b :: BuilderBase and el :: EdgeList and transpose' :: bool
  assumes valid: "valid_el b el"
  defines "N \<equiv> nat (num_nodes_B b)"
    and "ps \<equiv> concat (map (placements b transpose') el)"
  shows "\<exists>index neighs.
           MakeCSR b el transpose' = (index, neighs) \<and>
           index = PrefixSum (CountDegrees b el transpose') \<and>
           csr_pair N index neighs \<and>
           (\<forall>n < N. neigh index neighs n = bucket n ps) \<and>
           MakeCSR_slots b el transpose' = slots_of index ps \<and>
           distinct (slots_of index ps) \<and>
           (\<forall>s \<in> set (slots_of index ps). 0 \<le> s \<and> s < int (length neighs)) \<and>
           length ps = length neighs \<and>
           neighs = fold (\<lambda>(slot, x) arr. arr[nat slot := x])
                      (zip (slots_of index ps) (map snd ps)) (replicate (length neighs) 0)"
proof -
  have slots: "MakeCSR_slots b el transpose' =
                 slots_of (PrefixSum (CountDegrees b el transpose')) ps"
    by (simp add: MakeCSR_slots_def ParallelPrefixSum_eq_PrefixSum ps_def)
  from MakeCSR_in_order_result [OF valid refl, of transpose'] slots show ?thesis
    unfolding MakeCSR_in_list_order N_def ps_def by blast
qed

text \<open>
  The graph that \<^verbatim>\<open>MakeGraphFromEL\<close> builds from an edge list over a known number of nodes
  is one that \<^verbatim>\<open>SquishGraph\<close> accepts.
\<close>

lemma MakeGraphFromEL_built:
  assumes known: "num_nodes_B b \<noteq> - 1" and valid: "valid_el b el"
  shows "built_graph b (snd (MakeGraphFromEL b el))"
proof -
  from MakeCSR_result [OF valid, of False] obtain index neighs where
    out: "MakeCSR b el False = (index, neighs)" and
    pair: "csr_pair (nat (num_nodes_B b)) index neighs" by blast
  from MakeCSR_result [OF valid, of True] obtain index' neighs' where
    rev: "MakeCSR b el True = (index', neighs')" and
    pair': "csr_pair (nat (num_nodes_B b)) index' neighs'" by blast
  from valid have "0 \<le> num_nodes_B b" by (simp add: valid_el_def)
  with known out rev pair pair' show ?thesis
    by (simp add: MakeGraphFromEL_def built_graph_def side_def CSRGraph_undirected_def
        CSRGraph_directed_def)
qed

lemma bucket_member:
  "(int n, x) \<in> set ps \<Longrightarrow> x \<in> set (bucket n ps)"
  by (force simp: bucket_def)

text \<open>
  Claim C1, as the code has it. After \<^verbatim>\<open>MakeCSR\<close> over an edge list whose endpoints are
  nodes of the builder, for every edge \<open>(u, v)\<close>: \<open>v\<close> is in the slice of \<open>u\<close> when
  symmetrizing or not transposing, and \<open>u\<close> is in the slice of \<open>v\<close> when symmetrizing or
  transposing. The slice of a node holds exactly the values placed for it. The slots
  that the cursor fetches hand out are pairwise distinct cells of the neighbor array,
  one for each placement and as many as the array has cells, and the array is the result
  of these writes. The slices together have \<open>offset[N]\<close> entries, the length of the
  neighbor array. In whatever order the placements take effect, the slots are pairwise
  distinct cells of the array and every slice holds the same values, rearranged.
\<close>

theorem MakeCSR_scatter:
  "valid_el b el \<Longrightarrow>
   (\<exists>index neighs.
      MakeCSR b el transpose' = (index, neighs) \<and>
      (\<forall>e \<in> set el.
         (symmetrize b \<or> \<not> transpose' \<longrightarrow> snd e \<in> set (neigh index neighs (nat (fst e)))) \<and>
         (symmetrize b \<or> transpose' \<longrightarrow> fst e \<in> set (neigh index neighs (nat (snd e))))) \<and>
      (\<forall>n < nat (num_nodes_B b).
         neigh index neighs n = bucket n (concat (map (placements b transpose') el))) \<and>
      distinct (MakeCSR_slots b el transpose') \<and>
      (\<forall>s \<in> set (MakeCSR_slots b el transpose'). 0 \<le> s \<and> s < int (length neighs)) \<and>
      length (MakeCSR_slots b el transpose') = length neighs \<and>
      neighs = fold (\<lambda>(slot, x) arr. arr[nat slot := x])
                 (zip (MakeCSR_slots b el transpose')
                      (map snd (concat (map (placements b transpose') el))))
                 (replicate (length neighs) 0) \<and>
      csr_pair (nat (num_nodes_B b)) index neighs \<and>
      (\<Sum>n < nat (num_nodes_B b). int (length (neigh index neighs n))) =
        index ! nat (num_nodes_B b) \<and>
      index ! nat (num_nodes_B b) = int (length neighs) \<and>
      (\<forall>ps. mset ps = mset (concat (map (placements b transpose') el)) \<longrightarrow>
         fst (MakeCSR_in_order b el transpose' ps) = index \<and>
         distinct (slots_of index ps) \<and>
         (\<forall>s \<in> set (slots_of index ps). 0 \<le> s \<and> s < int (length neighs)) \<and>
         (\<forall>n < nat (num_nodes_B b).
            mset (neigh index (snd (MakeCSR_in_order b el transpose' ps)) n) =
              mset (neigh index neighs n))))"
proof -
  assume valid: "valid_el b el"
  let ?N = "nat (num_nodes_B b)"
  let ?ps = "concat (map (placements b transpose') el)"
  from MakeCSR_result [OF valid, of transpose'] obtain index neighs where
    res: "MakeCSR b el transpose' = (index, neighs)" and
    index: "index = PrefixSum (CountDegrees b el transpose')" and
    pair: "csr_pair ?N index neighs" and
    sl: "\<forall>n < ?N. neigh index neighs n = bucket n ?ps" and
    slots: "MakeCSR_slots b el transpose' = slots_of index ?ps" and
    dist: "distinct (slots_of index ?ps)" and
    bounds: "\<forall>s \<in> set (slots_of index ?ps). 0 \<le> s \<and> s < int (length neighs)" and
    total: "length ?ps = length neighs" and
    writes: "neighs = fold (\<lambda>(slot, x) arr. arr[nat slot := x])
                      (zip (slots_of index ?ps) (map snd ?ps)) (replicate (length neighs) 0)"
    by blast
  have mem: "(symmetrize b \<or> \<not> transpose' \<longrightarrow> snd e \<in> set (neigh index neighs (nat (fst e)))) \<and>
             (symmetrize b \<or> transpose' \<longrightarrow> fst e \<in> set (neigh index neighs (nat (snd e))))"
    if e: "e \<in> set el" for e
  proof -
    from valid e have u: "0 \<le> fst e" "nat (fst e) < ?N" and v: "0 \<le> snd e" "nat (snd e) < ?N"
      by (auto simp: valid_el_def)
    have fwd: "snd e \<in> set (neigh index neighs (nat (fst e)))" if "symmetrize b \<or> \<not> transpose'"
    proof -
      from that e have "(fst e, snd e) \<in> set ?ps"
        by (auto simp: placements_def intro!: bexI [of _ e])
      with u have "(int (nat (fst e)), snd e) \<in> set ?ps" by simp
      then have "snd e \<in> set (bucket (nat (fst e)) ?ps)" by (rule bucket_member)
      with sl u show ?thesis by simp
    qed
    have bwd: "fst e \<in> set (neigh index neighs (nat (snd e)))" if "symmetrize b \<or> transpose'"
    proof -
      from that e have "(snd e, fst e) \<in> set ?ps"
        by (auto simp: placements_def GetSource_def intro!: bexI [of _ e])
      with v have "(int (nat (snd e)), fst e) \<in> set ?ps" by simp
      then have "fst e \<in> set (bucket (nat (snd e)) ?ps)" by (rule bucket_member)
      with sl v show ?thesis by simp
    qed
    from fwd bwd show ?thesis by blast
  qed
  have len: "length (MakeCSR_slots b el transpose') = length neighs"
    using slots total by (simp add: slots_of_length)
  have sum: "(\<Sum>n < ?N. int (length (neigh index neighs n))) = index ! ?N"
    using csr_pair_total [OF pair order_refl] by simp
  have top: "index ! ?N = int (length neighs)"
    using pair by (simp add: csr_pair_def)
  have any: "fst (MakeCSR_in_order b el transpose' ps) = index \<and>
         distinct (slots_of index ps) \<and>
         (\<forall>s \<in> set (slots_of index ps). 0 \<le> s \<and> s < int (length neighs)) \<and>
         (\<forall>n < ?N. mset (neigh index (snd (MakeCSR_in_order b el transpose' ps)) n) =
                    mset (neigh index neighs n))"
    if perm: "mset ps = mset ?ps" for ps
  proof -
    from MakeCSR_in_order_result [OF valid perm] obtain neighs' where
      res': "MakeCSR_in_order b el transpose' ps = (index, neighs')" and
      sl': "\<forall>n < ?N. neigh index neighs' n = bucket n ps" and
      dist': "distinct (slots_of index ps)" and
      bounds': "\<forall>s \<in> set (slots_of index ps). 0 \<le> s \<and> s < int (length neighs')" and
      total': "length ps = length neighs'"
      unfolding index by blast
    from perm have "length ps = length ?ps" by (rule mset_eq_length)
    with total total' have "length neighs' = length neighs" by simp
    moreover have "mset (neigh index neighs' n) = mset (neigh index neighs n)" if "n < ?N" for n
      using that sl sl' bucket_mset [OF perm, of n] by simp
    ultimately show ?thesis using res' dist' bounds' by simp
  qed
  from res mem sl dist bounds len writes pair sum top any show ?thesis
    unfolding slots by blast
qed

lemma transposed_MakeCSR:
  "MakeCSR \<lparr>symmetrize = False, num_nodes_B = 2, invert = True\<rparr> [(0, 1)] True = ([0, 0, 1], [0])"
proof -
  have d: "CountDegrees \<lparr>symmetrize = False, num_nodes_B = 2, invert = True\<rparr> [(0, 1)] True = [0, 1]"
    by (simp add: CountDegrees_def fetch_and_add_def eval_nat_numeral)
  have p: "ParallelPrefixSum [0, 1] = [0, 0, 1]"
    by (simp add: ParallelPrefixSum_eq_PrefixSum PrefixSum_def)
  have n: "replicate (nat ([0, 0, 1] !
               nat (num_nodes_B \<lparr>symmetrize = False, num_nodes_B = 2, invert = True\<rparr>))) (0::int) =
           [0]"
    by simp
  have s: "fold (scatter \<lparr>symmetrize = False, num_nodes_B = 2, invert = True\<rparr> True) [(0, 1)]
             ([0, 0, 1], [0]) = ([0, 1, 1], [0])"
    by (simp add: scatter_def place_def fetch_and_add_def GetSource_def)
  show ?thesis
    unfolding MakeCSR_def d p GenIndex_def Let_def n s by simp
qed

theorem MakeCSR_scatter_counterexample:
  "valid_el \<lparr>symmetrize = False, num_nodes_B = 2, invert = True\<rparr> [(0, 1)] \<and>
   MakeCSR \<lparr>symmetrize = False, num_nodes_B = 2, invert = True\<rparr> [(0, 1)] True = ([0, 0, 1], [0]) \<and>
   neigh [0, 0, 1] [0] 0 = [] \<and>
   1 \<notin> set (neigh [0, 0, 1] [0] 0)"
  by (simp add: transposed_MakeCSR) (simp add: valid_el_def neigh_def cells_def)

theorem MakeCSR_scatter_witness:
  "valid_el \<lparr>symmetrize = True, num_nodes_B = 3, invert = True\<rparr> [(0, 1), (1, 0), (0, 1), (2, 2)] \<and>
   1 \<in> set (neigh [0, 3, 6, 8] [1, 1, 1, 0, 0, 0, 2, 2] 0) \<and>
   0 \<in> set (neigh [0, 3, 6, 8] [1, 1, 1, 0, 0, 0, 2, 2] 1) \<and>
   distinct (MakeCSR_slots \<lparr>symmetrize = True, num_nodes_B = 3, invert = True\<rparr>
               [(0, 1), (1, 0), (0, 1), (2, 2)] False) \<and>
   length (MakeCSR_slots \<lparr>symmetrize = True, num_nodes_B = 3, invert = True\<rparr>
               [(0, 1), (1, 0), (0, 1), (2, 2)] False) = 8"
proof -
  let ?b = "\<lparr>symmetrize = True, num_nodes_B = 3, invert = True\<rparr>"
  let ?el = "[(0, 1), (1, 0), (0, 1), (2, 2)] :: EdgeList"
  have valid: "valid_el ?b ?el" by (simp add: valid_el_def)
  from MakeCSR_scatter [OF valid, of False] obtain index neighs where
    res: "MakeCSR ?b ?el False = (index, neighs)" and
    mem: "\<forall>e \<in> set ?el.
         (symmetrize ?b \<or> \<not> False \<longrightarrow> snd e \<in> set (neigh index neighs (nat (fst e)))) \<and>
         (symmetrize ?b \<or> False \<longrightarrow> fst e \<in> set (neigh index neighs (nat (snd e))))" and
    dist: "distinct (MakeCSR_slots ?b ?el False)" and
    len: "length (MakeCSR_slots ?b ?el False) = length neighs"
    by blast
  from res have eq: "index = [0, 3, 6, 8]" "neighs = [1, 1, 1, 0, 0, 0, 2, 2]"
    by (simp_all add: scenario_MakeCSR)
  from mem have "1 \<in> set (neigh index neighs 0)" "0 \<in> set (neigh index neighs 1)"
    by simp_all
  with valid dist len show ?thesis unfolding eq by simp
qed

section \<open>Relabelling by degree\<close>

lemma csr_pair_out_degree:
  assumes "csr_pair N (out_index g) (out_neighs g)" and "n < N"
  shows "out_degree g n = int (length (out_neigh g n))"
  using csr_pair_degree [OF assms] by (simp add: out_degree_def out_neigh_def)

text \<open>The sorted pairs: a rearrangement of the (degree, node) pairs, in descending order.\<close>

lemma degree_id_pairs_mset:
  "mset (degree_id_pairs g) =
     mset (map (\<lambda>n. (out_degree g n, int n)) [0..<nat (num_nodes g)])"
proof -
  have "fold (\<lambda>n pairs. pairs[n := (out_degree g n, int n)]) [0..<nat (num_nodes g)]
          (replicate (nat (num_nodes g)) (0, 0)) =
        map (\<lambda>n. (out_degree g n, int n)) [0..<nat (num_nodes g)]"
    using fill_fold [of "nat (num_nodes g)" "replicate (nat (num_nodes g)) (0, 0)"
                        "\<lambda>n. (out_degree g n, int n)"]
    by simp
  then show ?thesis by (simp add: degree_id_pairs_def)
qed

lemma degree_id_pairs_length: "length (degree_id_pairs g) = nat (num_nodes g)"
  using degree_id_pairs_mset [of g, THEN arg_cong, of size] by simp

lemma degree_id_pairs_snd:
  "mset (map snd (degree_id_pairs g)) = mset (map int [0..<nat (num_nodes g)])"
proof -
  have "mset (map snd (degree_id_pairs g)) = image_mset snd (mset (degree_id_pairs g))"
    by (simp only: mset_map)
  also have "\<dots> = mset (map snd (map (\<lambda>n. (out_degree g n, int n)) [0..<nat (num_nodes g)]))"
    by (simp only: degree_id_pairs_mset mset_map)
  also have "map snd (map (\<lambda>n. (out_degree g n, int n)) [0..<nat (num_nodes g)]) =
             map int [0..<nat (num_nodes g)]"
    by simp
  finally show ?thesis .
qed

lemma degree_id_pairs_distinct: "distinct (map snd (degree_id_pairs g))"
proof -
  have "distinct (map int [0..<nat (num_nodes g)])"
    by (simp add: distinct_map)
  then show ?thesis
    using degree_id_pairs_snd [of g] by (metis mset_eq_imp_distinct_iff)
qed

lemma degree_id_pairs_nth:
  assumes "k < nat (num_nodes g)"
  shows "\<exists>u < nat (num_nodes g). degree_id_pairs g ! k = (out_degree g u, int u)"
proof -
  from assms have "degree_id_pairs g ! k \<in> set (degree_id_pairs g)"
    by (simp add: degree_id_pairs_length)
  also have "set (degree_id_pairs g) =
             set (map (\<lambda>n. (out_degree g n, int n)) [0..<nat (num_nodes g)])"
    using degree_id_pairs_mset [of g] by (metis set_mset_mset)
  finally show ?thesis by auto
qed

lemma degree_id_pairs_find:
  assumes "u < nat (num_nodes g)"
  shows "\<exists>k < nat (num_nodes g). degree_id_pairs g ! k = (out_degree g u, int u)"
proof -
  have "(out_degree g u, int u) \<in> set (map (\<lambda>n. (out_degree g n, int n)) [0..<nat (num_nodes g)])"
    using assms by auto
  also have "set (map (\<lambda>n. (out_degree g n, int n)) [0..<nat (num_nodes g)]) =
             set (degree_id_pairs g)"
    using degree_id_pairs_mset [of g] by (metis set_mset_mset)
  finally show ?thesis
    by (auto simp: in_set_conv_nth degree_id_pairs_length)
qed

lemma degree_id_pairs_descending:
  assumes "i \<le> j" and "j < nat (num_nodes g)"
  shows "fst (degree_id_pairs g ! j) \<le> fst (degree_id_pairs g ! i)"
proof -
  let ?P = "degree_id_pairs g"
  have "sorted (rev ?P)" by (simp add: degree_id_pairs_def Let_def)
  then have "?P ! j \<le> ?P ! i"
    using assms by (simp add: sorted_rev_iff_nth_mono degree_id_pairs_length)
  then show ?thesis by (auto simp: less_eq_prod_def)
qed


text \<open>The arrays \<^verbatim>\<open>degrees\<close> and \<^verbatim>\<open>new_ids\<close>.\<close>

lemma ids_loop:
  assumes len: "length P = N" and dist: "distinct (map snd P)"
    and rng: "\<forall>k < N. 0 \<le> snd (P ! k) \<and> snd (P ! k) < int N" and K: "K \<le> N"
  shows "\<exists>degs ids.
           fold (\<lambda>n (degrees, new_ids).
                   (degrees[n := fst (P ! n)], new_ids[nat (snd (P ! n)) := int n]))
             [0..<K] (replicate N 0, replicate N 0) = (degs, ids) \<and>
           length degs = N \<and> length ids = N \<and>
           (\<forall>k < K. degs ! k = fst (P ! k)) \<and>
           (\<forall>k < K. ids ! nat (snd (P ! k)) = int k)"
  using K
proof (induction K)
  case 0
  then show ?case by simp
next
  case (Suc K)
  then have KN: "K < N" by simp
  with Suc.IH obtain degs ids where
    run: "fold (\<lambda>n (degrees, new_ids).
                   (degrees[n := fst (P ! n)], new_ids[nat (snd (P ! n)) := int n]))
             [0..<K] (replicate N 0, replicate N 0) = (degs, ids)" and
    ld: "length degs = N" and li: "length ids = N" and
    d: "\<forall>k < K. degs ! k = fst (P ! k)" and
    i: "\<forall>k < K. ids ! nat (snd (P ! k)) = int k"
    by auto
  let ?degs = "degs[K := fst (P ! K)]" and ?ids = "ids[nat (snd (P ! K)) := int K]"
  have 1: "fold (\<lambda>n (degrees, new_ids).
                   (degrees[n := fst (P ! n)], new_ids[nat (snd (P ! n)) := int n]))
             [0..<Suc K] (replicate N 0, replicate N 0) = (?degs, ?ids)"
    using run by simp
  have 2: "\<forall>k < Suc K. ?degs ! k = fst (P ! k)"
    using d ld KN by (auto simp: nth_list_update less_Suc_eq)
  have 3: "?ids ! nat (snd (P ! k)) = int k" if k: "k < Suc K" for k
  proof (cases "k = K")
    case True
    from rng KN have "0 \<le> snd (P ! K)" "snd (P ! K) < int N" by simp_all
    then have "nat (snd (P ! K)) < length ids" using li by simp
    with True show ?thesis by simp
  next
    case False
    with k have kK: "k < K" by simp
    with KN len dist have "snd (P ! k) \<noteq> snd (P ! K)"
      by (simp add: distinct_conv_nth)
    moreover from rng kK KN have "0 \<le> snd (P ! k)" "0 \<le> snd (P ! K)" by simp_all
    ultimately have "nat (snd (P ! k)) \<noteq> nat (snd (P ! K))" by simp
    with i kK show ?thesis by simp
  qed
  from 1 2 3 ld li show ?case by auto
qed

lemma new_ids_props:
  fixes g :: CSRGraph
  defines "N \<equiv> nat (num_nodes g)"
    and "degrees \<equiv> fst (degrees_new_ids g)" and "new_ids \<equiv> snd (degrees_new_ids g)"
  shows "length degrees = N" and "length new_ids = N"
    and "\<And>u. u < N \<Longrightarrow> 0 \<le> new_ids ! u \<and> new_ids ! u < int N \<and>
                        degrees ! nat (new_ids ! u) = out_degree g u"
    and "\<And>u w. u < N \<Longrightarrow> w < N \<Longrightarrow> new_ids ! u = new_ids ! w \<Longrightarrow> u = w"
    and "\<And>k. k < N \<Longrightarrow> \<exists>u < N. new_ids ! u = int k"
    and "\<And>i j. i \<le> j \<Longrightarrow> j < N \<Longrightarrow> degrees ! j \<le> degrees ! i"
proof -
  let ?P = "degree_id_pairs g"
  have len: "length ?P = N" by (simp add: degree_id_pairs_length N_def)
  have rng: "\<forall>k < N. 0 \<le> snd (?P ! k) \<and> snd (?P ! k) < int N"
    using degree_id_pairs_nth [of _ g] unfolding N_def by fastforce
  from ids_loop [OF len degree_id_pairs_distinct rng order_refl] obtain degs ids where
    run: "fold (\<lambda>n (degrees, new_ids).
                   (degrees[n := fst (?P ! n)], new_ids[nat (snd (?P ! n)) := int n]))
             [0..<N] (replicate N 0, replicate N 0) = (degs, ids)" and
    ld: "length degs = N" and li: "length ids = N" and
    d: "\<forall>k < N. degs ! k = fst (?P ! k)" and
    i: "\<forall>k < N. ids ! nat (snd (?P ! k)) = int k"
    by blast
  from run have eq: "degrees = degs" "new_ids = ids"
    by (simp_all add: degrees_def new_ids_def degrees_new_ids_def Let_def N_def)
  show "length degrees = N" "length new_ids = N" using ld li eq by simp_all
  have at: "new_ids ! u = int k \<and> degrees ! k = out_degree g u"
    if "k < N" "?P ! k = (out_degree g u, int u)" for u k
    using that d i eq by (metis fst_conv snd_conv nat_int)
  show "0 \<le> new_ids ! u \<and> new_ids ! u < int N \<and> degrees ! nat (new_ids ! u) = out_degree g u"
    if "u < N" for u
  proof -
    from that degree_id_pairs_find [of u g] obtain k where
      "k < N" "?P ! k = (out_degree g u, int u)" unfolding N_def by blast
    with at [of k u] show ?thesis by simp
  qed
  show "u = w" if "u < N" "w < N" "new_ids ! u = new_ids ! w" for u w
  proof -
    from that degree_id_pairs_find [of u g] degree_id_pairs_find [of w g] obtain k l where
      k: "k < N" "?P ! k = (out_degree g u, int u)" and
      l: "l < N" "?P ! l = (out_degree g w, int w)" unfolding N_def by blast
    with at [of k u] at [of l w] that(3) have "k = l" by simp
    with k l show ?thesis by simp
  qed
  show "\<exists>u < N. new_ids ! u = int k" if "k < N" for k
  proof -
    from that degree_id_pairs_nth [of k g] obtain u where
      "u < N" "?P ! k = (out_degree g u, int u)" unfolding N_def by blast
    with at [OF that, of u] show ?thesis by blast
  qed
  show "degrees ! j \<le> degrees ! i" if "i \<le> j" "j < N" for i j
    using that d eq degree_id_pairs_descending [of i j g] by (simp add: N_def)
qed


text \<open>Placing a list of values with the cursor of one node writes the list at the cursor.\<close>

lemma overwrite_Cons:
  assumes "0 \<le> c" and "nat c + Suc (length xs) \<le> length arr"
  shows "overwrite (arr[nat c := x]) (c + 1) xs = overwrite arr c (x # xs)"
proof -
  from assms have c1: "nat (c + 1) = Suc (nat c)" by simp
  from assms have "nat c < length arr" by simp
  then have t: "take (Suc (nat c)) (arr[nat c := x]) = take (nat c) arr @ [x]"
    by (simp add: take_Suc_conv_app_nth)
  have d: "drop (Suc (nat c) + length xs) (arr[nat c := x]) = drop (nat c + length (x # xs)) arr"
    by simp
  show ?thesis unfolding overwrite_def c1 t d by simp
qed

lemma place_run:
  assumes "0 \<le> a" and "nat a < length cur" and "0 \<le> cur ! nat a"
    and "nat (cur ! nat a) + length xs \<le> length arr"
  shows "fold (\<lambda>x st. place st a x) xs (cur, arr) =
           (cur[nat a := cur ! nat a + int (length xs)], overwrite arr (cur ! nat a) xs)"
  using assms
proof (induction xs arbitrary: cur arr)
  case Nil
  then show ?case by (simp add: overwrite_def)
next
  case (Cons x xs)
  let ?c = "cur ! nat a"
  let ?cur = "cur[nat a := ?c + 1]" and ?arr = "arr[nat ?c := x]"
  have step: "place (cur, arr) a x = (?cur, ?arr)"
    by (simp add: place_def fetch_and_add_def)
  have c1: "?cur ! nat a = ?c + 1" using Cons.prems(2) by simp
  have "fold (\<lambda>x st. place st a x) xs (?cur, ?arr) =
          (?cur[nat a := ?cur ! nat a + int (length xs)], overwrite ?arr (?cur ! nat a) xs)"
    using Cons.prems c1 by (intro Cons.IH) simp_all
  also have "?cur[nat a := ?cur ! nat a + int (length xs)] =
             cur[nat a := ?c + int (length (x # xs))]"
    unfolding c1 by (simp add: add.commute add.left_commute)
  also have "overwrite ?arr (?cur ! nat a) xs = overwrite arr ?c (x # xs)"
    unfolding c1 using Cons.prems(3,4) by (intro overwrite_Cons) simp_all
  finally show ?case using step by simp
qed

lemma relabel_node_effect:
  assumes p: "0 \<le> new_ids ! u" "nat (new_ids ! u) < length cur"
    and cur: "cur ! nat (new_ids ! u) = index ! nat (new_ids ! u)"
    and lo: "0 \<le> index ! nat (new_ids ! u)"
    and hi: "index ! (nat (new_ids ! u) + 1) =
               index ! nat (new_ids ! u) + int (length (out_neigh g u))"
    and fit: "nat (index ! (nat (new_ids ! u) + 1)) \<le> length arr"
  shows "relabel_node g new_ids index u (cur, arr) =
           (cur[nat (new_ids ! u) := index ! (nat (new_ids ! u) + 1)],
            overwrite arr (index ! nat (new_ids ! u))
              (sort (map (\<lambda>v. new_ids ! nat v) (out_neigh g u))))"
proof -
  let ?p = "nat (new_ids ! u)"
  let ?xs = "map (\<lambda>v. new_ids ! nat v) (out_neigh g u)"
  have room: "nat (index ! ?p) + length ?xs \<le> length arr"
    using fit hi lo by simp
  have "fold (\<lambda>v st. place st (new_ids ! u) (new_ids ! nat v)) (out_neigh g u) (cur, arr) =
        fold (\<lambda>x st. place st (new_ids ! u) x) ?xs (cur, arr)"
    by (simp add: fold_map comp_def)
  also have "\<dots> = (cur[?p := cur ! ?p + int (length ?xs)], overwrite arr (cur ! ?p) ?xs)"
    using p lo room cur by (intro place_run) simp_all
  finally have inner:
    "fold (\<lambda>v st. place st (new_ids ! u) (new_ids ! nat v)) (out_neigh g u) (cur, arr) =
       (cur[?p := index ! (?p + 1)], overwrite arr (index ! ?p) ?xs)"
    using cur hi by simp
  have "cells (overwrite arr (index ! ?p) ?xs) (index ! ?p) (index ! ?p + int (length ?xs)) = ?xs"
    using lo room by (rule cells_overwrite_same)
  then have c: "cells (overwrite arr (index ! ?p) ?xs) (index ! ?p) (index ! (?p + 1)) = ?xs"
    using hi by simp
  have "std_sort (overwrite arr (index ! ?p) ?xs) (index ! ?p) (index ! (?p + 1)) =
        overwrite (overwrite arr (index ! ?p) ?xs) (index ! ?p) (sort ?xs)"
    unfolding std_sort_def c ..
  also have "\<dots> = overwrite arr (index ! ?p) (sort ?xs @ drop (length (sort ?xs)) ?xs)"
    using room by (intro overwrite_overwrite) simp_all
  finally have "std_sort (overwrite arr (index ! ?p) ?xs) (index ! ?p) (index ! (?p + 1)) =
                overwrite arr (index ! ?p) (sort ?xs)"
    by simp
  with inner show ?thesis by (simp add: relabel_node_def)
qed

lemma relabel_loop:
  assumes pair: "csr_pair N index arr0"
    and rng: "\<And>u. u < N \<Longrightarrow> 0 \<le> new_ids ! u \<and> new_ids ! u < int N"
    and inj: "\<And>u w. u < N \<Longrightarrow> w < N \<Longrightarrow> new_ids ! u = new_ids ! w \<Longrightarrow> u = w"
    and deg: "\<And>u. u < N \<Longrightarrow> index ! (nat (new_ids ! u) + 1) =
                 index ! nat (new_ids ! u) + int (length (out_neigh g u))"
    and K: "K \<le> N"
  shows "\<exists>cur arr.
           fold (relabel_node g new_ids index) [0..<K] (index, arr0) = (cur, arr) \<and>
           length arr = length arr0 \<and> length cur = N + 1 \<and>
           (\<forall>u < N. K \<le> u \<longrightarrow> cur ! nat (new_ids ! u) = index ! nat (new_ids ! u)) \<and>
           (\<forall>u < K. neigh index arr (nat (new_ids ! u)) =
                      sort (map (\<lambda>v. new_ids ! nat v) (out_neigh g u)))"
  using K
proof (induction K)
  case 0
  with pair show ?case by (simp add: csr_pair_def)
next
  case (Suc K)
  then have KN: "K < N" by simp
  with Suc.IH obtain cur arr where
    run: "fold (relabel_node g new_ids index) [0..<K] (index, arr0) = (cur, arr)" and
    la: "length arr = length arr0" and lc: "length cur = N + 1" and
    fresh: "\<forall>u < N. K \<le> u \<longrightarrow> cur ! nat (new_ids ! u) = index ! nat (new_ids ! u)" and
    prev: "\<forall>u < K. neigh index arr (nat (new_ids ! u)) =
                      sort (map (\<lambda>v. new_ids ! nat v) (out_neigh g u))"
    by auto
  let ?p = "nat (new_ids ! K)"
  let ?R = "sort (map (\<lambda>v. new_ids ! nat v) (out_neigh g K))"
  have pN: "?p < N" and p0: "0 \<le> new_ids ! K" using rng [OF KN] by auto
  have pair': "csr_pair N index arr" using pair la by (simp add: csr_pair_def)
  have lo: "0 \<le> index ! ?p" using csr_pair_bounds(1) [OF pair', of ?p] pN by simp
  have fit: "nat (index ! (?p + 1)) \<le> length arr"
    using csr_pair_bounds(2) [OF pair', of "?p + 1"] pN by simp
  have curp: "cur ! ?p = index ! ?p" using fresh KN by simp
  let ?cur = "cur[?p := index ! (?p + 1)]" and ?arr = "overwrite arr (index ! ?p) ?R"
  have eff: "relabel_node g new_ids index K (cur, arr) = (?cur, ?arr)"
    using p0 pN lc curp lo deg [OF KN] fit by (intro relabel_node_effect) simp_all
  have room: "nat (index ! ?p) + length ?R \<le> length arr"
    using fit deg [OF KN] lo by simp
  have 1: "fold (relabel_node g new_ids index) [0..<Suc K] (index, arr0) = (?cur, ?arr)"
    using run eff by simp
  have 2: "length ?arr = length arr0" using room la by (simp add: overwrite_length)
  have 3: "length ?cur = N + 1" using lc by simp
  have other: "nat (new_ids ! u) \<noteq> ?p" if "u < N" "u \<noteq> K" for u
  proof
    assume "nat (new_ids ! u) = ?p"
    with rng [OF that(1)] p0 have "new_ids ! u = new_ids ! K"
      by (auto simp: eq_nat_nat_iff)
    with inj [OF that(1) KN] that(2) show False by simp
  qed
  have 4: "\<forall>u < N. Suc K \<le> u \<longrightarrow> ?cur ! nat (new_ids ! u) = index ! nat (new_ids ! u)"
  proof (intro allI impI)
    fix u assume u: "u < N" "Suc K \<le> u"
    then have "nat (new_ids ! u) \<noteq> ?p" by (intro other) simp_all
    with fresh u show "?cur ! nat (new_ids ! u) = index ! nat (new_ids ! u)" by simp
  qed
  have 5: "neigh index ?arr (nat (new_ids ! u)) =
             sort (map (\<lambda>v. new_ids ! nat v) (out_neigh g u))" if u: "u < Suc K" for u
  proof (cases "u = K")
    case True
    have "cells ?arr (index ! ?p) (index ! ?p + int (length ?R)) = ?R"
      using lo room by (rule cells_overwrite_same)
    with True deg [OF KN] show ?thesis by (simp add: neigh_def)
  next
    case False
    with u KN have uK: "u < K" and uN: "u < N" by simp_all
    let ?q = "nat (new_ids ! u)"
    have qN: "?q < N" using rng [OF uN] by auto
    have qp: "?q \<noteq> ?p" using other [OF uN False] .
    have dj: "index ! (?q + 1) \<le> index ! ?p \<or> index ! (?p + 1) \<le> index ! ?q"
      using csr_pair_disjoint [OF pair' qN pN qp] .
    have q0: "0 \<le> index ! ?q" using csr_pair_bounds(1) [OF pair', of ?q] qN by simp
    have qfit: "nat (index ! (?q + 1)) \<le> length arr"
      using csr_pair_bounds(2) [OF pair', of "?q + 1"] qN by simp
    have "cells ?arr (index ! ?q) (index ! (?q + 1)) = cells arr (index ! ?q) (index ! (?q + 1))"
    proof (rule cells_cong)
      show "length ?arr = length arr" using room by (simp add: overwrite_length)
      show "nat (index ! (?q + 1)) \<le> length ?arr" using qfit room by (simp add: overwrite_length)
      fix i assume i: "nat (index ! ?q) \<le> i" "i < nat (index ! (?q + 1))"
      with qfit have il: "i < length arr" by simp
      have lR: "length ?R = length (out_neigh g K)" by simp
      from dj show "?arr ! i = arr ! i"
      proof
        assume "index ! (?q + 1) \<le> index ! ?p"
        with i q0 lo have "i < nat (index ! ?p)" by linarith
        with room il show ?thesis by (simp add: overwrite_nth)
      next
        assume "index ! (?p + 1) \<le> index ! ?q"
        with i deg [OF KN] lo have "nat (index ! ?p) + length ?R \<le> i"
          unfolding lR by linarith
        with room il show ?thesis by (simp add: overwrite_nth)
      qed
    qed
    with prev uK show ?thesis by (simp add: neigh_def)
  qed
  from 1 2 3 4 5 show ?case by blast
qed


lemma new_ids_mset:
  "mset (snd (degrees_new_ids g)) = mset (map int [0..<nat (num_nodes g)])"
proof -
  let ?ids = "snd (degrees_new_ids g)" and ?N = "nat (num_nodes g)"
  have len: "length ?ids = ?N" by (rule new_ids_props(2))
  have "distinct ?ids"
    unfolding distinct_conv_nth using new_ids_props(4) [of _ g] len by auto
  moreover have "distinct (map int [0..<?N])" by (simp add: distinct_map)
  moreover have "set ?ids = set (map int [0..<?N])"
  proof (intro equalityI subsetI)
    fix x assume "x \<in> set ?ids"
    then obtain u where "u < ?N" "x = ?ids ! u" using len by (auto simp: in_set_conv_nth)
    with new_ids_props(3) [of u g] have "0 \<le> x" "x < int ?N" by simp_all
    then have "x = int (nat x)" "nat x < ?N" by arith+
    then show "x \<in> set (map int [0..<?N])" by (metis atLeast0LessThan image_eqI lessThan_iff set_map set_upt)
  next
    fix x assume "x \<in> set (map int [0..<?N])"
    then obtain k where "k < ?N" "x = int k" by auto
    with new_ids_props(5) [of k g] len show "x \<in> set ?ids"
      by (auto simp: in_set_conv_nth)
  qed
  ultimately show ?thesis by (simp only: set_eq_iff_mset_eq_distinct)
qed

lemma RelabelByDegree_result:
  assumes g: "undirected_graph g"
  shows "\<exists>arr.
           RelabelByDegree g =
             Inr (CSRGraph_undirected (num_nodes g) (PrefixSum (fst (degrees_new_ids g))) arr) \<and>
           csr_pair (nat (num_nodes g)) (PrefixSum (fst (degrees_new_ids g))) arr \<and>
           (\<forall>u < nat (num_nodes g).
              neigh (PrefixSum (fst (degrees_new_ids g))) arr (nat (snd (degrees_new_ids g) ! u)) =
                sort (map (\<lambda>v. snd (degrees_new_ids g) ! nat v) (out_neigh g u)))"
proof -
  let ?N = "nat (num_nodes g)"
  let ?degs = "fst (degrees_new_ids g)" and ?ids = "snd (degrees_new_ids g)"
  let ?index = "PrefixSum ?degs"
  let ?init = "replicate (nat (?index ! ?N)) (0::int)"
  from g have undir: "\<not> directed g" and pair: "csr_pair ?N (out_index g) (out_neighs g)"
    by (simp_all add: undirected_graph_def)
  have ld: "length ?degs = ?N" by (rule new_ids_props(1))
  have rng: "0 \<le> ?ids ! u \<and> ?ids ! u < int ?N" if "u < ?N" for u
    using new_ids_props(3) [OF that] by simp
  have du: "?degs ! nat (?ids ! u) = int (length (out_neigh g u))" if "u < ?N" for u
    using new_ids_props(3) [OF that] csr_pair_out_degree [OF pair that] by simp
  have nonneg: "\<forall>x \<in> set ?degs. 0 \<le> x"
  proof
    fix x assume "x \<in> set ?degs"
    then obtain k where k: "k < ?N" "x = ?degs ! k" using ld by (auto simp: in_set_conv_nth)
    from new_ids_props(5) [OF k(1)] obtain u where u: "u < ?N" "?ids ! u = int k" by blast
    with du [of u] k show "0 \<le> x" by simp
  qed
  have pair0: "csr_pair ?N ?index ?init"
    using PrefixSum_csr_pair [OF nonneg, of 0] ld by simp
  have deg: "?index ! (nat (?ids ! u) + 1) = ?index ! nat (?ids ! u) + int (length (out_neigh g u))"
    if "u < ?N" for u
  proof -
    from rng [OF that] ld have "nat (?ids ! u) < length ?degs" by arith
    from PrefixSum_Suc [OF this] du [OF that] show ?thesis by simp
  qed
  have inj: "u = w" if "u < ?N" "w < ?N" "?ids ! u = ?ids ! w" for u w
    using that by (rule new_ids_props(4))
  from relabel_loop [OF pair0 rng inj deg order_refl]
  obtain cur arr where
    run: "fold (relabel_node g ?ids ?index) [0..<?N] (?index, ?init) = (cur, arr)" and
    la: "length arr = length ?init" and
    sl: "\<forall>u < ?N. neigh ?index arr (nat (?ids ! u)) =
                    sort (map (\<lambda>v. ?ids ! nat v) (out_neigh g u))"
    by blast
  have res: "RelabelByDegree g = Inr (CSRGraph_undirected (num_nodes g) ?index arr)"
    using undir run
    by (simp add: RelabelByDegree_def Let_def case_prod_beta ParallelPrefixSum_eq_PrefixSum
        GenIndex_def)
  have "csr_pair ?N ?index arr" using pair0 la by (simp add: csr_pair_def)
  with res sl show ?thesis by blast
qed

lemma mset_concat_map_cong:
  "mset xs = mset ys \<Longrightarrow> mset (concat (map F xs)) = mset (concat (map F ys))"
proof -
  have "mset (concat (map F zs)) = sum_mset (image_mset (\<lambda>x. mset (F x)) (mset zs))" for zs
    by (induction zs) simp_all
  then show "mset xs = mset ys \<Longrightarrow> mset (concat (map F xs)) = mset (concat (map F ys))"
    by simp
qed

lemma mset_concat_map_image:
  "(\<And>u. u \<in> set us \<Longrightarrow> mset (G u) = image_mset h (mset (F u))) \<Longrightarrow>
   mset (concat (map G us)) = image_mset h (mset (concat (map F us)))"
  by (induction us) simp_all


text \<open>
  Claim C5. For an undirected graph \<^verbatim>\<open>RelabelByDegree\<close> returns a graph on the same nodes.
  The array \<^verbatim>\<open>new_ids\<close> is a permutation of the node identifiers; the slice of the new
  node \<open>new_ids[u]\<close> is the translated slice of \<open>u\<close>, sorted ascending; thus the
  adjacency entries of the new graph are those of the old one translated, as a multiset
  of ordered pairs and so also as a multiset of unordered edges. A node that receives
  the new identifier 0 has a degree that no other node exceeds, and it keeps that degree.
\<close>

theorem RelabelByDegree_permutes:
  "undirected_graph g \<Longrightarrow>
   (\<exists>g'. RelabelByDegree g = Inr g' \<and> \<not> directed g' \<and> num_nodes g' = num_nodes g \<and>
      mset (snd (degrees_new_ids g)) = mset (map int [0..<nat (num_nodes g)]) \<and>
      arcs g' =
        image_mset (\<lambda>(u, v). (snd (degrees_new_ids g) ! nat u, snd (degrees_new_ids g) ! nat v))
          (arcs g) \<and>
      image_mset (\<lambda>(u, v). {u, v}) (arcs g') =
        image_mset (\<lambda>(u, v). {snd (degrees_new_ids g) ! nat u, snd (degrees_new_ids g) ! nat v})
          (arcs g) \<and>
      (\<forall>u < nat (num_nodes g).
         out_neigh g' (nat (snd (degrees_new_ids g) ! u)) =
           sort (map (\<lambda>v. snd (degrees_new_ids g) ! nat v) (out_neigh g u))) \<and>
      (\<forall>u < nat (num_nodes g).
         snd (degrees_new_ids g) ! u = 0 \<longrightarrow>
           out_degree g' 0 = out_degree g u \<and>
           (\<forall>w < nat (num_nodes g). out_degree g w \<le> out_degree g u)) \<and>
      (\<forall>n < nat (num_nodes g). sorted (out_neigh g' n)))"
proof -
  assume g: "undirected_graph g"
  let ?N = "nat (num_nodes g)"
  let ?degs = "fst (degrees_new_ids g)" and ?ids = "snd (degrees_new_ids g)"
  let ?index = "PrefixSum ?degs"
  let ?h = "\<lambda>(u, v). (?ids ! nat u, ?ids ! nat v)"
  from RelabelByDegree_result [OF g] obtain arr where
    res: "RelabelByDegree g = Inr (CSRGraph_undirected (num_nodes g) ?index arr)" and
    pair: "csr_pair ?N ?index arr" and
    sl: "\<forall>u < ?N. neigh ?index arr (nat (?ids ! u)) =
                    sort (map (\<lambda>v. ?ids ! nat v) (out_neigh g u))"
    by blast
  let ?g' = "CSRGraph_undirected (num_nodes g) ?index arr"
  have on: "out_neigh ?g' n = neigh ?index arr n" for n
    by (simp add: out_neigh_def CSRGraph_undirected_def)
  have ld: "length ?degs = ?N" by (rule new_ids_props(1))
  have li: "length ?ids = ?N" by (rule new_ids_props(2))
  have perm: "mset ?ids = mset (map int [0..<?N])" by (rule new_ids_mset)
  have od: "out_degree ?g' n = ?degs ! n" if "n < ?N" for n
    using that ld PrefixSum_Suc [of n ?degs]
    by (simp add: out_degree_def CSRGraph_undirected_def)
  \<comment> \<open>the slices\<close>
  have 1: "\<forall>u < ?N. out_neigh ?g' (nat (?ids ! u)) =
             sort (map (\<lambda>v. ?ids ! nat v) (out_neigh g u))"
    using sl on by simp
  \<comment> \<open>the entries as a multiset\<close>
  have ids_map: "map (\<lambda>u. nat (?ids ! u)) [0..<?N] = map nat ?ids"
    using li by (intro nth_equalityI) simp_all
  have "mset (map nat ?ids) = image_mset nat (mset ?ids)" by (simp only: mset_map)
  also have "\<dots> = mset (map nat (map int [0..<?N]))" by (simp only: perm mset_map)
  also have "map nat (map int [0..<?N]) = [0..<?N]" by (simp add: map_idI)
  finally have perm_nat: "mset [0..<?N] = mset (map (\<lambda>u. nat (?ids ! u)) [0..<?N])"
    unfolding ids_map by simp
  let ?F' = "\<lambda>n. map (\<lambda>v. (int n, v)) (out_neigh ?g' n)"
  let ?F = "\<lambda>u. map (\<lambda>v. (int u, v)) (out_neigh g u)"
  have "arcs ?g' = mset (concat (map ?F' [0..<?N]))"
    by (simp add: arcs_def CSRGraph_undirected_def)
  also have "\<dots> = mset (concat (map ?F' (map (\<lambda>u. nat (?ids ! u)) [0..<?N])))"
    using perm_nat by (rule mset_concat_map_cong)
  also have "\<dots> = mset (concat (map (\<lambda>u. ?F' (nat (?ids ! u))) [0..<?N]))"
    by (simp add: comp_def)
  also have "\<dots> = image_mset ?h (mset (concat (map ?F [0..<?N])))"
  proof (rule mset_concat_map_image)
    fix u assume "u \<in> set [0..<?N]"
    then have u: "u < ?N" by simp
    from new_ids_props(3) [OF u] have iu: "int (nat (?ids ! u)) = ?ids ! u" by simp
    have "mset (?F' (nat (?ids ! u))) =
          image_mset (\<lambda>v. (?ids ! u, v)) (mset (sort (map (\<lambda>v. ?ids ! nat v) (out_neigh g u))))"
      using 1 u iu by (simp only: mset_map)
    also have "\<dots> = image_mset (\<lambda>v. (?ids ! u, ?ids ! nat v)) (mset (out_neigh g u))"
      by (simp add: image_mset.compositionality comp_def)
    also have "\<dots> = image_mset ?h (mset (?F u))"
      by (simp add: image_mset.compositionality comp_def)
    finally show "mset (?F' (nat (?ids ! u))) = image_mset ?h (mset (?F u))" .
  qed
  finally have 2: "arcs ?g' = image_mset ?h (arcs g)" by (simp add: arcs_def)
  have 3: "image_mset (\<lambda>(u, v). {u, v}) (arcs ?g') =
           image_mset (\<lambda>(u, v). {?ids ! nat u, ?ids ! nat v}) (arcs g)"
    unfolding 2 image_mset.compositionality by (rule image_mset_cong) auto
  \<comment> \<open>the node with the new identifier 0\<close>
  have 4: "\<forall>u < ?N. ?ids ! u = 0 \<longrightarrow>
             out_degree ?g' 0 = out_degree g u \<and> (\<forall>w < ?N. out_degree g w \<le> out_degree g u)"
  proof (intro allI impI)
    fix u assume u: "u < ?N" and z: "?ids ! u = 0"
    from new_ids_props(3) [OF u] z have d0: "?degs ! 0 = out_degree g u" by simp
    from u have "0 < ?N" by simp
    then have a: "out_degree ?g' 0 = out_degree g u" using od [of 0] d0 by simp
    have b: "out_degree g w \<le> out_degree g u" if w: "w < ?N" for w
    proof -
      from new_ids_props(3) [OF w] have "nat (?ids ! w) < ?N"
        and dw: "?degs ! nat (?ids ! w) = out_degree g w" by arith+
      from new_ids_props(6) [OF le0 this(1)] dw d0 show ?thesis by simp
    qed
    from a b show "out_degree ?g' 0 = out_degree g u \<and>
                   (\<forall>w < ?N. out_degree g w \<le> out_degree g u)" by blast
  qed
  \<comment> \<open>every slice is sorted\<close>
  have 5: "\<forall>n < ?N. sorted (out_neigh ?g' n)"
  proof (intro allI impI)
    fix n assume "n < ?N"
    from new_ids_props(5) [OF this] obtain u where u: "u < ?N" "?ids ! u = int n" by blast
    with 1 have "out_neigh ?g' n = sort (map (\<lambda>v. ?ids ! nat v) (out_neigh g u))" by auto
    then show "sorted (out_neigh ?g' n)" by simp
  qed
  have 0: "\<not> directed ?g'" "num_nodes ?g' = num_nodes g"
    by (simp_all add: CSRGraph_undirected_def)
  from res 0 perm 1 2 3 4 5 show ?thesis by blast
qed

lemma path_new_ids:
  "degrees_new_ids (CSRGraph_undirected 3 [0, 1, 3, 4] [1, 0, 2, 1]) = ([2, 1, 1], [2, 0, 1])"
proof -
  have p: "degree_id_pairs (CSRGraph_undirected 3 [0, 1, 3, 4] [1, 0, 2, 1]) =
             [(2, 1), (1, 2), (1, 0)]"
    by (simp add: degree_id_pairs_def CSRGraph_undirected_def out_degree_def eval_nat_numeral)
  show ?thesis
    unfolding degrees_new_ids_def p Let_def
    by (simp add: CSRGraph_undirected_def eval_nat_numeral)
qed

theorem RelabelByDegree_permutes_witness:
  "undirected_graph (CSRGraph_undirected 3 [0, 1, 3, 4] [1, 0, 2, 1]) \<and>
   snd (degrees_new_ids (CSRGraph_undirected 3 [0, 1, 3, 4] [1, 0, 2, 1])) = [2, 0, 1] \<and>
   (\<exists>g'. RelabelByDegree (CSRGraph_undirected 3 [0, 1, 3, 4] [1, 0, 2, 1]) = Inr g' \<and>
         out_neigh g' 0 = [1, 2] \<and> out_neigh g' 1 = [0] \<and> out_neigh g' 2 = [0] \<and>
         out_degree g' 0 = 2)"
proof -
  let ?g = "CSRGraph_undirected 3 [0, 1, 3, 4] [1, 0, 2, 1]"
  have g: "undirected_graph ?g"
    by (simp add: undirected_graph_def csr_pair_def CSRGraph_undirected_def)
  have ids: "snd (degrees_new_ids ?g) = [2, 0, 1]" by (simp add: path_new_ids)
  have N: "nat (num_nodes ?g) = 3" by (simp add: CSRGraph_undirected_def)
  from RelabelByDegree_permutes [OF g] obtain g' where
    res: "RelabelByDegree ?g = Inr g'" and
    sl: "\<forall>u < nat (num_nodes ?g).
           out_neigh g' (nat (snd (degrees_new_ids ?g) ! u)) =
             sort (map (\<lambda>v. snd (degrees_new_ids ?g) ! nat v) (out_neigh ?g u))" and
    top: "\<forall>u < nat (num_nodes ?g).
           snd (degrees_new_ids ?g) ! u = 0 \<longrightarrow>
             out_degree g' 0 = out_degree ?g u \<and>
             (\<forall>w < nat (num_nodes ?g). out_degree ?g w \<le> out_degree ?g u)"
    by blast
  have o: "out_neigh ?g 0 = [1]" "out_neigh ?g 1 = [0, 2]" "out_neigh ?g 2 = [1]"
    "out_degree ?g 1 = 2"
    by (simp_all add: out_neigh_def neigh_def cells_def out_degree_def CSRGraph_undirected_def)
  have inst: "out_neigh g' (nat ([2, 0, 1] ! u)) =
                sort (map (\<lambda>v. [2, 0, 1] ! nat v) (out_neigh ?g u))" if "u < 3" for u
    using sl that unfolding ids N by blast
  from inst [of 0] inst [of 1] inst [of 2]
  have s: "out_neigh g' 2 = [0]" "out_neigh g' 0 = [1, 2]" "out_neigh g' 1 = [0]"
    unfolding o by simp_all
  have "[2, 0, 1] ! 1 = (0::int)" by simp
  with top [unfolded ids N, rule_format, of 1]
  have "out_degree g' 0 = out_degree ?g 1" by simp
  with g ids res s o show ?thesis by simp
qed

end
